theory Spec2Isabelle
  imports Complex_Main
begin

section \<open>Values, errors and messages\<close>

text \<open>
  The payload of an event and the body of an HTTP request or response are Python
  structures of the kind \<^verbatim>\<open>json.dumps\<close> accepts. Objects keep the order of their
  keys, as a Python dict literal does. A floating-point number is kept as the real
  number it denotes; the code computes with none of them.
\<close>

datatype json =
    JNull
  | JBool bool
  | JInt int
  | JFloat real
  | JStr string
  | JList "json list"
  | JObj "(string \<times> json) list"

text \<open>The Python exceptions the modelled code can raise.\<close>

datatype py_error =
    KeyError string
  | AttributeError string
  | ValueError string
  | ZeroDivisionError
  | OverflowError

text \<open>
  A channel-layer event is a Python dict with string keys: \<^verbatim>\<open>event['type']\<close>,
  \<^verbatim>\<open>event['data']\<close>. Subscripting a missing key raises \<^verbatim>\<open>KeyError\<close>.
\<close>

type_synonym event = "string \<rightharpoonup> json"

definition getitem :: "event \<Rightarrow> string \<Rightarrow> py_error + json" where
  "getitem event k = (case event k of None \<Rightarrow> Inl (KeyError k) | Some v \<Rightarrow> Inr v)"

text \<open>
  What a consumer hands to the ASGI server for its connection: the acceptance of the
  WebSocket handshake, or a text frame. The text of a frame is always
  \<^verbatim>\<open>json.dumps(v)\<close> for a structure \<open>v\<close>; the frame is recorded by that structure,
  the serializer being the standard library's.
\<close>

datatype ws_message = Accept | TextJSON json

section \<open>The consumers of \<^verbatim>\<open>websocket/consumers.py\<close>\<close>

datatype consumer_class = DashboardConsumer | TransactionConsumer | MLTrainingConsumer

text \<open>
  The states of a connection. \<open>Connecting\<close>: the handshake is not yet accepted.
  \<open>Open\<close>: accepted. \<open>Closed\<close>: torn down, \<^verbatim>\<open>disconnect\<close> has run. \<open>Crashed\<close>: a
  handler of the consumer raised; the consumer is gone and the framework never calls
  its \<^verbatim>\<open>disconnect\<close>.
\<close>

datatype lifecycle = Connecting | Open | Closed | Crashed

type_synonym channel = nat

text \<open>
  One consumer instance serves one WebSocket connection. \<open>channel_name\<close> is the unique
  name the channel layer allocates for the instance (an opaque token, here a number);
  \<open>group_name\<close> is the attribute that \<^verbatim>\<open>connect\<close> assigns, absent before that;
  \<open>state\<close> is the state of the connection and \<open>outbox\<close> the messages handed to the
  server so far, oldest first.
\<close>

record consumer =
  cls :: consumer_class
  channel_name :: channel
  group_name :: "string option"
  state :: lifecycle
  outbox :: "ws_message list"

subsection \<open>The framework's base class and channel layer\<close>

text \<open>
  \<^verbatim>\<open>accept\<close> and \<^verbatim>\<open>send\<close> are methods of the framework's
  \<^verbatim>\<open>AsyncWebsocketConsumer\<close>: the first completes the handshake, the second hands one
  text frame to the server. The transport is taken to accept every message; its
  failures are outside this model.
\<close>

definition accept :: "consumer \<Rightarrow> consumer" where
  "accept c = c\<lparr>state := Open, outbox := outbox c @ [Accept]\<rparr>"

definition send :: "consumer \<Rightarrow> json \<Rightarrow> consumer" where
  "send c v = c\<lparr>outbox := outbox c @ [TextJSON v]\<rparr>"

text \<open>
  The channel layer is the framework's too. Its groups are kept as the list of member
  channels of each group name, in the order they joined. The two membership
  primitives follow the interface the framework documents for every channel layer:
  \<^verbatim>\<open>group_add\<close> adds the channel and returns normally when it is already a member;
  \<^verbatim>\<open>group_discard\<close> removes the channel if it is a member and does nothing otherwise.
\<close>

type_synonym channel_layer = "string \<Rightarrow> channel list"

definition group_add :: "string \<Rightarrow> channel \<Rightarrow> channel_layer \<Rightarrow> channel_layer" where
  "group_add g ch L = (if ch \<in> set (L g) then L else L(g := L g @ [ch]))"

definition group_discard :: "string \<Rightarrow> channel \<Rightarrow> channel_layer \<Rightarrow> channel_layer" where
  "group_discard g ch L = (if ch \<in> set (L g) then L(g := removeAll ch (L g)) else L)"

subsection \<open>\<^verbatim>\<open>DashboardConsumer\<close>\<close>

definition DashboardConsumer_connect ::
  "consumer \<Rightarrow> channel_layer \<Rightarrow> py_error + consumer \<times> channel_layer" where
  "DashboardConsumer_connect self L =
     (let self = self\<lparr>group_name := Some ''dashboard_updates''\<rparr>;
          L = group_add ''dashboard_updates'' (channel_name self) L
      in Inr (accept self, L))"

definition DashboardConsumer_disconnect ::
  "consumer \<Rightarrow> int \<Rightarrow> channel_layer \<Rightarrow> py_error + consumer \<times> channel_layer" where
  "DashboardConsumer_disconnect self close_code L =
     (case group_name self of
        None \<Rightarrow> Inl (AttributeError ''group_name'')
      | Some g \<Rightarrow> Inr (self, group_discard g (channel_name self) L))"

definition DashboardConsumer_dashboard_update :: "consumer \<Rightarrow> event \<Rightarrow> py_error + consumer" where
  "DashboardConsumer_dashboard_update self event =
     (case getitem event ''type'' of
        Inl e \<Rightarrow> Inl e
      | Inr t \<Rightarrow>
          (case getitem event ''data'' of
             Inl e \<Rightarrow> Inl e
           | Inr d \<Rightarrow> Inr (send self (JObj [(''type'', t), (''data'', d)]))))"

subsection \<open>\<^verbatim>\<open>TransactionConsumer\<close>\<close>

definition TransactionConsumer_connect ::
  "consumer \<Rightarrow> channel_layer \<Rightarrow> py_error + consumer \<times> channel_layer" where
  "TransactionConsumer_connect self L =
     (let self = self\<lparr>group_name := Some ''transaction_updates''\<rparr>;
          L = group_add ''transaction_updates'' (channel_name self) L
      in Inr (accept self, L))"

definition TransactionConsumer_disconnect ::
  "consumer \<Rightarrow> int \<Rightarrow> channel_layer \<Rightarrow> py_error + consumer \<times> channel_layer" where
  "TransactionConsumer_disconnect self close_code L =
     (case group_name self of
        None \<Rightarrow> Inl (AttributeError ''group_name'')
      | Some g \<Rightarrow> Inr (self, group_discard g (channel_name self) L))"

definition TransactionConsumer_transaction_update :: "consumer \<Rightarrow> event \<Rightarrow> py_error + consumer" where
  "TransactionConsumer_transaction_update self event =
     (case getitem event ''data'' of
        Inl e \<Rightarrow> Inl e
      | Inr d \<Rightarrow> Inr (send self (JObj [(''type'', JStr ''transaction''), (''data'', d)])))"

subsection \<open>\<^verbatim>\<open>MLTrainingConsumer\<close>\<close>

definition MLTrainingConsumer_connect ::
  "consumer \<Rightarrow> channel_layer \<Rightarrow> py_error + consumer \<times> channel_layer" where
  "MLTrainingConsumer_connect self L =
     (let self = self\<lparr>group_name := Some ''ml_training_updates''\<rparr>;
          L = group_add ''ml_training_updates'' (channel_name self) L
      in Inr (accept self, L))"

definition MLTrainingConsumer_disconnect ::
  "consumer \<Rightarrow> int \<Rightarrow> channel_layer \<Rightarrow> py_error + consumer \<times> channel_layer" where
  "MLTrainingConsumer_disconnect self close_code L =
     (case group_name self of
        None \<Rightarrow> Inl (AttributeError ''group_name'')
      | Some g \<Rightarrow> Inr (self, group_discard g (channel_name self) L))"

definition MLTrainingConsumer_training_update :: "consumer \<Rightarrow> event \<Rightarrow> py_error + consumer" where
  "MLTrainingConsumer_training_update self event =
     (case getitem event ''data'' of
        Inl e \<Rightarrow> Inl e
      | Inr d \<Rightarrow> Inr (send self (JObj [(''type'', JStr ''training_progress''), (''data'', d)])))"

text \<open>The \<^verbatim>\<open>type\<close> field of a frame, when the frame carries an object that has one.\<close>

fun frame_type :: "ws_message \<Rightarrow> json option" where
  "frame_type (TextJSON (JObj kvs)) = map_of kvs ''type''"
| "frame_type _ = None"

section \<open>\<^verbatim>\<open>Strategy.success_rate\<close> of \<^verbatim>\<open>dashboard/models.py\<close>\<close>






section \<open>The running system\<close>

text \<open>
  Python looks a method up in the class of the instance.
\<close>

definition connect :: "consumer \<Rightarrow> channel_layer \<Rightarrow> py_error + consumer \<times> channel_layer" where
  "connect self L =
     (case cls self of
        DashboardConsumer \<Rightarrow> DashboardConsumer_connect self L
      | TransactionConsumer \<Rightarrow> TransactionConsumer_connect self L
      | MLTrainingConsumer \<Rightarrow> MLTrainingConsumer_connect self L)"

definition disconnect ::
  "consumer \<Rightarrow> int \<Rightarrow> channel_layer \<Rightarrow> py_error + consumer \<times> channel_layer" where
  "disconnect self close_code L =
     (case cls self of
        DashboardConsumer \<Rightarrow> DashboardConsumer_disconnect self close_code L
      | TransactionConsumer \<Rightarrow> TransactionConsumer_disconnect self close_code L
      | MLTrainingConsumer \<Rightarrow> MLTrainingConsumer_disconnect self close_code L)"

text \<open>
  The framework picks the handler of an event from its type tag, with every dot
  replaced by an underscore: a missing tag or a tag with a leading underscore is
  refused, and a tag that names no handler of the consumer's class raises
  \<^verbatim>\<open>ValueError\<close>. The handlers are the three update methods of
  \<^verbatim>\<open>websocket/consumers.py\<close>; tags that name a method of the framework's own base
  class are not used for events and are treated as naming no handler.
\<close>

definition get_handler_name :: "event \<Rightarrow> py_error + string" where
  "get_handler_name message =
     (case message ''type'' of
        None \<Rightarrow> Inl (ValueError ''Incoming message has no type attribute'')
      | Some (JStr t) \<Rightarrow>
          (let handler_name = map (\<lambda>x. if x = CHR ''.'' then CHR ''_'' else x) t
           in if take 1 handler_name = ''_''
              then Inl (ValueError ''Malformed type in message (leading underscore)'')
              else Inr handler_name)
      | Some _ \<Rightarrow> Inl (AttributeError ''replace''))"

definition dispatch :: "consumer \<Rightarrow> event \<Rightarrow> py_error + consumer" where
  "dispatch self message =
     (case get_handler_name message of
        Inl e \<Rightarrow> Inl e
      | Inr handler \<Rightarrow>
          (if cls self = DashboardConsumer \<and> handler = ''dashboard_update''
           then DashboardConsumer_dashboard_update self message
           else if cls self = TransactionConsumer \<and> handler = ''transaction_update''
           then TransactionConsumer_transaction_update self message
           else if cls self = MLTrainingConsumer \<and> handler = ''training_update''
           then MLTrainingConsumer_training_update self message
           else Inl (ValueError ''No handler for message type'')))"

text \<open>
  The state of the running system: the groups of the channel layer, the consumer
  instance of every connection made so far, by channel name, and the next channel
  name the layer will allocate.
\<close>

record system =
  groups :: channel_layer
  consumers :: "channel \<rightharpoonup> consumer"
  next_channel :: channel

definition init_system :: system where
  "init_system = \<lparr>groups = (\<lambda>g. []), consumers = Map.empty, next_channel = 0\<rparr>"

definition new_consumer :: "consumer_class \<Rightarrow> channel \<Rightarrow> consumer" where
  "new_consumer k ch =
     \<lparr>cls = k, channel_name = ch, group_name = None, state = Connecting, outbox = []\<rparr>"

text \<open>
  A client opening a WebSocket on one of the three routes of
  \<^verbatim>\<open>websocket/routing.py\<close>: the framework creates an instance of the route's class
  on a fresh channel and calls its \<^verbatim>\<open>connect\<close>.
\<close>

definition websocket_connect :: "consumer_class \<Rightarrow> system \<Rightarrow> py_error + system" where
  "websocket_connect k S =
     (let ch = next_channel S in
      case connect (new_consumer k ch) (groups S) of
        Inl e \<Rightarrow> Inl e
      | Inr (self, L) \<Rightarrow>
          Inr (S\<lparr>groups := L, consumers := (consumers S)(ch \<mapsto> self),
                 next_channel := Suc ch\<rparr>))"

text \<open>
  The transport of a connection going away: the framework calls the instance's
  \<^verbatim>\<open>disconnect\<close> and the connection is closed. The signal may come again for a
  connection already closed; for a channel that never had a consumer nothing runs.
\<close>

definition websocket_disconnect :: "channel \<Rightarrow> int \<Rightarrow> system \<Rightarrow> py_error + system" where
  "websocket_disconnect ch close_code S =
     (case consumers S ch of
        None \<Rightarrow> Inr S
      | Some self \<Rightarrow>
          (case disconnect self close_code (groups S) of
             Inl e \<Rightarrow> Inl e
           | Inr (self', L) \<Rightarrow>
               Inr (S\<lparr>groups := L, consumers := (consumers S)(ch \<mapsto> self'\<lparr>state := Closed\<rparr>)\<rparr>)))"

text \<open>
  \<^verbatim>\<open>group_send\<close> of the channel layer hands the event to every member channel of the
  group, where the consumer's dispatch runs the handler. The members are visited in
  the order of the group's list; a member channel on which no consumer listens is
  passed over. This is the publish in which every handler returns: when a handler
  raises, \<open>deliver_all\<close> stops with \<open>Inl\<close>, which only records that some handler
  raised. What the raising consumer and the other members do then is the subject of
  \<open>broadcast\<close> below.
\<close>

fun deliver_all ::
  "channel list \<Rightarrow> event \<Rightarrow> (channel \<rightharpoonup> consumer) \<Rightarrow> py_error + (channel \<rightharpoonup> consumer)" where
  "deliver_all [] message cs = Inr cs"
| "deliver_all (ch # chs) message cs =
     (case cs ch of
        None \<Rightarrow> deliver_all chs message cs
      | Some self \<Rightarrow>
          (case dispatch self message of
             Inl e \<Rightarrow> Inl e
           | Inr self' \<Rightarrow> deliver_all chs message (cs(ch \<mapsto> self'))))"

definition group_send :: "string \<Rightarrow> event \<Rightarrow> system \<Rightarrow> py_error + system" where
  "group_send g message S =
     (case deliver_all (groups S g) message (consumers S) of
        Inl e \<Rightarrow> Inl e
      | Inr cs \<Rightarrow> Inr (S\<lparr>consumers := cs\<rparr>))"

section \<open>The ingestion endpoints of \<^verbatim>\<open>api/views.py\<close>\<close>

record http_request =
  request_data :: json

record response =
  response_data :: json
  status :: nat

definition HTTP_201_CREATED :: nat where
  "HTTP_201_CREATED = 201"

text \<open>
  The three actions of \<^verbatim>\<open>DataIngestionView\<close>. None of them reads the request or
  touches the channel layer, so the system state passes through unchanged.
\<close>

definition ingest_transaction :: "http_request \<Rightarrow> system \<Rightarrow> response \<times> system" where
  "ingest_transaction request S =
     (\<lparr>response_data = JObj [(''status'', JStr ''Transaction ingested'')],
       status = HTTP_201_CREATED\<rparr>, S)"

definition ingest_opportunity :: "http_request \<Rightarrow> system \<Rightarrow> response \<times> system" where
  "ingest_opportunity request S =
     (\<lparr>response_data = JObj [(''status'', JStr ''Opportunity ingested'')],
       status = HTTP_201_CREATED\<rparr>, S)"

definition ingest_metrics :: "http_request \<Rightarrow> system \<Rightarrow> response \<times> system" where
  "ingest_metrics request S =
     (\<lparr>response_data = JObj [(''status'', JStr ''Metrics ingested'')],
       status = HTTP_201_CREATED\<rparr>, S)"

section \<open>Orderly runs of the system\<close>

text \<open>
  One step of an orderly run is one whole operation that goes well: a client connects
  on one of the routes and its \<^verbatim>\<open>connect\<close> completes, a transport goes away and
  \<^verbatim>\<open>disconnect\<close> runs, a producer publishes an event to a group and every handler
  returns, or a producer calls an ingestion endpoint. Runs in which a handler raises,
  or in which something happens while a \<^verbatim>\<open>connect\<close> is still under way, are not
  orderly; they are the subject of the section after this one.
\<close>

inductive step :: "system \<Rightarrow> system \<Rightarrow> bool" where
  connects: "websocket_connect k S = Inr S' \<Longrightarrow> step S S'"
| disconnects: "websocket_disconnect ch close_code S = Inr S' \<Longrightarrow> step S S'"
| publishes: "group_send g message S = Inr S' \<Longrightarrow> step S S'"
| ingests_transaction: "ingest_transaction request S = (r, S') \<Longrightarrow> step S S'"
| ingests_opportunity: "ingest_opportunity request S = (r, S') \<Longrightarrow> step S S'"
| ingests_metrics: "ingest_metrics request S = (r, S') \<Longrightarrow> step S S'"

definition reachable :: "system \<Rightarrow> bool" where
  "reachable S = step\<^sup>*\<^sup>* init_system S"

text \<open>The group that \<^verbatim>\<open>connect\<close> of each class joins.\<close>

fun class_group :: "consumer_class \<Rightarrow> string" where
  "class_group DashboardConsumer = ''dashboard_updates''"
| "class_group TransactionConsumer = ''transaction_updates''"
| "class_group MLTrainingConsumer = ''ml_training_updates''"

text \<open>The \<^verbatim>\<open>data\<close> field of a frame, when the frame carries an object that has one.\<close>

fun frame_data :: "ws_message \<Rightarrow> json option" where
  "frame_data (TextJSON (JObj kvs)) = map_of kvs ''data''"
| "frame_data _ = None"

text \<open>
  The invariant of the running system: every member of a group is the channel of an
  open consumer whose \<open>group_name\<close> is that group; every consumer sits under its own
  channel name, which has been allocated, and has joined the group of its class; no
  group lists a channel twice.
\<close>

definition registry_inv :: "system \<Rightarrow> bool" where
  "registry_inv S \<longleftrightarrow>
     (\<forall>g ch. ch \<in> set (groups S g) \<longrightarrow>
        (\<exists>c. consumers S ch = Some c \<and> state c = Open \<and> group_name c = Some g)) \<and>
     (\<forall>ch c. consumers S ch = Some c \<longrightarrow>
        channel_name c = ch \<and> ch < next_channel S \<and>
        group_name c = Some (class_group (cls c))) \<and>
     (\<forall>g. distinct (groups S g))"

section \<open>Every run of the system\<close>

text \<open>
  A run need not be orderly. \<^verbatim>\<open>connect\<close> awaits \<^verbatim>\<open>group_add\<close> before it awaits
  \<^verbatim>\<open>accept\<close>: in between, the session is in its group while still \<open>Connecting\<close>,
  and other sessions and producers go on. A handler can raise: the exception ends the
  consumer, the framework does not call its \<^verbatim>\<open>disconnect\<close>, and its channel stays
  in the group. The channel layer hands the event to the other members all the same,
  and the producer's call returns normally whatever the handlers do.
\<close>

definition crash :: "consumer \<Rightarrow> consumer" where
  "crash self = self\<lparr>state := Crashed\<rparr>"

text \<open>
  What one open consumer does with one event. The framework looks the handler up by
  the event's tag among the attributes of the consumer. Besides the update method of
  the class, the tags \<^verbatim>\<open>disconnect\<close> and \<^verbatim>\<open>accept\<close> name the methods of those
  names, which then run with the event as their argument (\<^verbatim>\<open>disconnect\<close> ignores
  its argument; the \<open>0\<close> below stands for it). An exception, from the lookup or from the
  method, ends the consumer. Tags that name other attributes of the framework's base
  class are not modelled and are treated as naming no handler.
\<close>

definition handle :: "consumer \<Rightarrow> event \<Rightarrow> channel_layer \<Rightarrow> consumer \<times> channel_layer" where
  "handle self message L =
     (case get_handler_name message of
        Inl e \<Rightarrow> (crash self, L)
      | Inr handler \<Rightarrow>
          if handler = ''disconnect'' then
            (case disconnect self 0 L of
               Inl e \<Rightarrow> (crash self, L)
             | Inr (self', L') \<Rightarrow> (self', L'))
          else if handler = ''accept'' then (accept self, L)
          else
            (case dispatch self message of
               Inl e \<Rightarrow> (crash self, L)
             | Inr self' \<Rightarrow> (self', L)))"

text \<open>
  The event arriving on one channel. Only an open consumer handles it: one that is
  still connecting is busy in \<^verbatim>\<open>connect\<close> and the event waits in its channel (what
  it does with it later is not modelled), and a closed or crashed one is gone.
\<close>

definition handle_at :: "channel \<Rightarrow> event \<Rightarrow> system \<Rightarrow> system" where
  "handle_at ch message S =
     (case consumers S ch of
        None \<Rightarrow> S
      | Some self \<Rightarrow>
          if state self = Open then
            (case handle self message (groups S) of
               (self', L) \<Rightarrow> S\<lparr>groups := L, consumers := (consumers S)(ch \<mapsto> self')\<rparr>)
          else S)"

text \<open>
  A publish in any run: the event goes to every channel that is a member of the group
  when the publish starts, in the order of the group's list, and the call returns.
\<close>

fun broadcast_to :: "channel list \<Rightarrow> event \<Rightarrow> system \<Rightarrow> system" where
  "broadcast_to [] message S = S"
| "broadcast_to (ch # chs) message S = broadcast_to chs message (handle_at ch message S)"

definition broadcast :: "string \<Rightarrow> event \<Rightarrow> system \<Rightarrow> system" where
  "broadcast g message S = broadcast_to (groups S g) message S"

text \<open>
  \<^verbatim>\<open>connect\<close> up to its last statement: the instance is created on a fresh channel,
  \<open>group_name\<close> is assigned and \<^verbatim>\<open>group_add\<close> has returned; \<^verbatim>\<open>accept\<close> is still to
  come.
\<close>

definition join :: "consumer_class \<Rightarrow> system \<Rightarrow> system" where
  "join k S =
     (let ch = next_channel S;
          self = (new_consumer k ch)\<lparr>group_name := Some (class_group k)\<rparr>
      in S\<lparr>groups := group_add (class_group k) ch (groups S),
            consumers := (consumers S)(ch \<mapsto> self), next_channel := Suc ch\<rparr>)"

text \<open>
  One move of any run: a \<^verbatim>\<open>connect\<close> gets as far as \<^verbatim>\<open>group_add\<close>; a connecting
  session is accepted; the transport of an open session goes away and \<^verbatim>\<open>disconnect\<close>
  runs; a producer publishes; a producer calls an ingestion endpoint. A state is
  attainable when moves lead to it from the initial state.
\<close>

inductive moves :: "system \<Rightarrow> system \<Rightarrow> bool" where
  joins: "moves S (join k S)"
| accepts: "consumers S ch = Some self \<Longrightarrow> state self = Connecting \<Longrightarrow>
     moves S (S\<lparr>consumers := (consumers S)(ch \<mapsto> accept self)\<rparr>)"
| tears_down: "consumers S ch = Some self \<Longrightarrow> state self = Open \<Longrightarrow>
     websocket_disconnect ch close_code S = Inr S' \<Longrightarrow> moves S S'"
| broadcasts: "moves S (broadcast g message S)"
| ingests_transaction: "ingest_transaction request S = (r, S') \<Longrightarrow> moves S S'"
| ingests_opportunity: "ingest_opportunity request S = (r, S') \<Longrightarrow> moves S S'"
| ingests_metrics: "ingest_metrics request S = (r, S') \<Longrightarrow> moves S S'"

definition attainable :: "system \<Rightarrow> bool" where
  "attainable S = moves\<^sup>*\<^sup>* init_system S"

text \<open>
  The invariant of every run: every member of a group is the channel of a session that
  \<^verbatim>\<open>disconnect\<close> has not closed and whose \<open>group_name\<close> is that group; every session
  sits under its own channel name, which has been allocated, and its \<open>group_name\<close> is
  the group of its class.
\<close>

definition run_inv :: "system \<Rightarrow> bool" where
  "run_inv S \<longleftrightarrow>
     (\<forall>g ch. ch \<in> set (groups S g) \<longrightarrow>
        (\<exists>c. consumers S ch = Some c \<and> state c \<noteq> Closed \<and> group_name c = Some g)) \<and>
     (\<forall>ch c. consumers S ch = Some c \<longrightarrow>
        channel_name c = ch \<and> ch < next_channel S \<and>
        group_name c = Some (class_group (cls c)))"

section \<open>Repeated teardown\<close>

text \<open>
  The transport may signal its teardown more than once: \<open>repeat_disconnect n\<close> calls
  \<^verbatim>\<open>disconnect\<close> on the same consumer \<open>n\<close> times in a row, stopping at the first
  call that raises.
\<close>

fun repeat_disconnect ::
  "nat \<Rightarrow> int \<Rightarrow> consumer \<times> channel_layer \<Rightarrow> py_error + consumer \<times> channel_layer" where
  "repeat_disconnect 0 close_code (self, L) = Inr (self, L)"
| "repeat_disconnect (Suc n) close_code (self, L) =
     (case disconnect self close_code L of
        Inl e \<Rightarrow> Inl e
      | Inr (self', L') \<Rightarrow> repeat_disconnect n close_code (self', L'))"

section \<open>A small scenario\<close>

text \<open>
  The concrete inputs used to exercise the theorems below: an event with a type tag
  and a payload, one session \<open>s1\<close> open on the transactions route, the systems in
  which it is the only session (just opened, after some frames, and closed), and two
  requests for the ingestion endpoint.
\<close>

definition update_event :: "string \<Rightarrow> json \<Rightarrow> event" where
  "update_event t d = [''type'' \<mapsto> JStr t, ''data'' \<mapsto> d]"

definition sig_abc :: event where
  "sig_abc = update_event ''transaction_update'' (JObj [(''sig'', JStr ''abc'')])"

definition transaction_frame :: "json \<Rightarrow> ws_message" where
  "transaction_frame d = TextJSON (JObj [(''type'', JStr ''transaction''), (''data'', d)])"

definition s1 :: consumer where
  "s1 = \<lparr>cls = TransactionConsumer, channel_name = 0,
          group_name = Some ''transaction_updates'', state = Open, outbox = [Accept]\<rparr>"

definition s1_open :: system where
  "s1_open = \<lparr>groups = (\<lambda>g. [])(''transaction_updates'' := [0]),
               consumers = [0 \<mapsto> s1], next_channel = 1\<rparr>"

definition s1_after :: "ws_message list \<Rightarrow> system" where
  "s1_after frames = s1_open\<lparr>consumers := [0 \<mapsto> s1\<lparr>outbox := Accept # frames\<rparr>]\<rparr>"

definition s1_closed :: system where
  "s1_closed = \<lparr>groups = (\<lambda>g. []), consumers = [0 \<mapsto> s1\<lparr>state := Closed\<rparr>], next_channel = 1\<rparr>"

definition empty_topic_request :: http_request where
  "empty_topic_request =
     \<lparr>request_data = JObj [(''topic'', JStr []), (''event_type'', JStr ''transaction''),
                            (''payload'', JObj [(''sig'', JStr ''abc'')])]\<rparr>"

definition null_type_request :: http_request where
  "null_type_request =
     \<lparr>request_data = JObj [(''topic'', JStr ''transactions''), (''event_type'', JNull),
                            (''payload'', JObj [(''sig'', JStr ''abc'')])]\<rparr>"

text \<open>
  More inputs: a transactions event without the \<^verbatim>\<open>data\<close> key, on which the handler
  raises \<^verbatim>\<open>KeyError\<close>; the well-formed request of the end-to-end scenario; and an
  arithmetic without rounding, used only to run \<open>success_rate\<close> at concrete counters.
\<close>

definition no_data :: event where
  "no_data = [''type'' \<mapsto> JStr ''transaction_update'']"

definition sig_abc_request :: http_request where
  "sig_abc_request =
     \<lparr>request_data = JObj [(''topic'', JStr ''transactions''),
                            (''event_type'', JStr ''transaction''),
                            (''payload'', JObj [(''sig'', JStr ''abc'')])]\<rparr>"


text \<open>
  The raw event of a request is the object in its body. It is malformed, in the words
  of the specification, when its topic is empty or its event type is missing or null.
  The endpoints themselves never look at any of this.
\<close>

definition raw_field :: "http_request \<Rightarrow> string \<Rightarrow> json option" where
  "raw_field request k = (case request_data request of JObj kvs \<Rightarrow> map_of kvs k | _ \<Rightarrow> None)"

definition malformed :: "http_request \<Rightarrow> bool" where
  "malformed request \<longleftrightarrow>
     raw_field request ''topic'' = Some (JStr []) \<or>
     raw_field request ''event_type'' = None \<or>
     raw_field request ''event_type'' = Some JNull"

section \<open>Properties of the handlers\<close>

lemma transaction_update_data:
  "event ''data'' = Some d \<Longrightarrow>
     TransactionConsumer_transaction_update c event =
       Inr (c\<lparr>outbox := outbox c @ [TextJSON (JObj [(''type'', JStr ''transaction''), (''data'', d)])]\<rparr>)"
  by (simp add: TransactionConsumer_transaction_update_def getitem_def send_def)

lemma training_update_data:
  "event ''data'' = Some d \<Longrightarrow>
     MLTrainingConsumer_training_update c event =
       Inr (c\<lparr>outbox := outbox c @
              [TextJSON (JObj [(''type'', JStr ''training_progress''), (''data'', d)])]\<rparr>)"
  by (simp add: MLTrainingConsumer_training_update_def getitem_def send_def)

lemma dashboard_update_data:
  "event ''type'' = Some t \<Longrightarrow> event ''data'' = Some d \<Longrightarrow>
     DashboardConsumer_dashboard_update c event =
       Inr (c\<lparr>outbox := outbox c @ [TextJSON (JObj [(''type'', t), (''data'', d)])]\<rparr>)"
  by (simp add: DashboardConsumer_dashboard_update_def getitem_def send_def)

lemma dispatch_transaction:
  "cls c = TransactionConsumer \<Longrightarrow> get_handler_name ev = Inr ''transaction_update'' \<Longrightarrow>
     dispatch c ev = TransactionConsumer_transaction_update c ev"
  by (simp add: dispatch_def)

section \<open>Delivery and the registry invariant\<close>

lemma dispatch_Inr:
  "dispatch c ev = Inr c' \<Longrightarrow>
     \<exists>f. c' = c\<lparr>outbox := outbox c @ [f]\<rparr> \<and> frame_data f = ev ''data''"
  by (auto simp: dispatch_def DashboardConsumer_dashboard_update_def
      TransactionConsumer_transaction_update_def MLTrainingConsumer_training_update_def
      getitem_def send_def split: sum.splits if_splits option.splits)

lemma deliver_all_other:
  "deliver_all ms ev cs = Inr cs' \<Longrightarrow> m \<notin> set ms \<Longrightarrow> cs' m = cs m"
proof (induction ms arbitrary: cs)
  case Nil
  then show ?case by simp
next
  case (Cons a ms)
  show ?case
  proof (cases "cs a")
    case None
    with Cons.prems have "deliver_all ms ev cs = Inr cs'" by simp
    with Cons.IH [of cs] Cons.prems(2) show ?thesis by simp
  next
    case (Some c)
    with Cons.prems obtain c' where r: "deliver_all ms ev (cs(a \<mapsto> c')) = Inr cs'"
      by (auto split: sum.splits)
    from Cons.IH [OF r] Cons.prems(2) show ?thesis by simp
  qed
qed

lemma deliver_all_None:
  "deliver_all ms ev cs = Inr cs' \<Longrightarrow> cs m = None \<Longrightarrow> cs' m = None"
proof (induction ms arbitrary: cs)
  case Nil
  then show ?case by simp
next
  case (Cons a ms)
  show ?case
  proof (cases "cs a")
    case None
    with Cons.prems have "deliver_all ms ev cs = Inr cs'" by simp
    with Cons.IH [of cs] Cons.prems(2) show ?thesis by simp
  next
    case (Some c)
    with Cons.prems obtain c' where r: "deliver_all ms ev (cs(a \<mapsto> c')) = Inr cs'"
      by (auto split: sum.splits)
    from Some Cons.prems(2) have "m \<noteq> a" by auto
    with Cons.IH [OF r] Cons.prems(2) show ?thesis by simp
  qed
qed

lemma deliver_all_member:
  "deliver_all ms ev cs = Inr cs' \<Longrightarrow> distinct ms \<Longrightarrow> m \<in> set ms \<Longrightarrow> cs m = Some c \<Longrightarrow>
     \<exists>c'. dispatch c ev = Inr c' \<and> cs' m = Some c'"
proof (induction ms arbitrary: cs)
  case Nil
  then show ?case by simp
next
  case (Cons a ms)
  show ?case
  proof (cases "cs a")
    case None
    with Cons.prems have r: "deliver_all ms ev cs = Inr cs'" and "m \<noteq> a" by auto
    with Cons.IH [OF r] Cons.prems show ?thesis by simp
  next
    case (Some d)
    with Cons.prems obtain d' where d: "dispatch d ev = Inr d'"
      and r: "deliver_all ms ev (cs(a \<mapsto> d')) = Inr cs'"
      by (auto split: sum.splits)
    show ?thesis
    proof (cases "m = a")
      case True
      with Cons.prems(2) have "m \<notin> set ms" by simp
      from deliver_all_other [OF r this] True have "cs' m = Some d'" by simp
      moreover from True Some Cons.prems(4) have "d = c" by simp
      ultimately show ?thesis using d by simp
    next
      case False
      with Cons.prems have "m \<in> set ms" "distinct ms" "(cs(a \<mapsto> d')) m = Some c" by auto
      from Cons.IH [OF r this(2) this(1) this(3)] show ?thesis .
    qed
  qed
qed

lemma deliver_all_succeeds:
  "distinct ms \<Longrightarrow> (\<forall>m c. m \<in> set ms \<longrightarrow> cs m = Some c \<longrightarrow> (\<exists>c'. dispatch c ev = Inr c')) \<Longrightarrow>
     \<exists>cs'. deliver_all ms ev cs = Inr cs'"
proof (induction ms arbitrary: cs)
  case Nil
  then show ?case by simp
next
  case (Cons a ms)
  show ?case
  proof (cases "cs a")
    case None
    with Cons show ?thesis by auto
  next
    case (Some c)
    with Cons.prems obtain c' where d: "dispatch c ev = Inr c'" by auto
    have "\<exists>cs'. deliver_all ms ev (cs(a \<mapsto> c')) = Inr cs'"
      using Cons.prems by (intro Cons.IH) auto
    with Some d show ?thesis by simp
  qed
qed


lemma connect_eq:
  "connect c L =
     Inr (accept (c\<lparr>group_name := Some (class_group (cls c))\<rparr>),
          group_add (class_group (cls c)) (channel_name c) L)"
  by (cases "cls c")
    (simp_all add: connect_def DashboardConsumer_connect_def TransactionConsumer_connect_def
      MLTrainingConsumer_connect_def Let_def accept_def)

lemma disconnect_eq:
  "disconnect c code L =
     (case group_name c of
        None \<Rightarrow> Inl (AttributeError ''group_name'')
      | Some g \<Rightarrow> Inr (c, group_discard g (channel_name c) L))"
  by (cases "cls c")
    (simp_all add: disconnect_def DashboardConsumer_disconnect_def
      TransactionConsumer_disconnect_def MLTrainingConsumer_disconnect_def)

lemma set_group_add:
  "set (group_add g ch L g') = (if g' = g then insert ch (set (L g')) else set (L g'))"
  by (auto simp: group_add_def)

lemma distinct_group_add: "distinct (L g') \<Longrightarrow> distinct (group_add g ch L g')"
  by (auto simp: group_add_def)

lemma set_group_discard:
  "set (group_discard g ch L g') = (if g' = g then set (L g') - {ch} else set (L g'))"
  by (auto simp: group_discard_def)

lemma distinct_group_discard: "distinct (L g') \<Longrightarrow> distinct (group_discard g ch L g')"
  by (auto simp: group_discard_def distinct_removeAll)

lemma inv_connect:
  assumes inv: "registry_inv S" and st: "websocket_connect k S = Inr S'"
  shows "registry_inv S'"
proof -
  let ?ch = "next_channel S"
  let ?c = "accept ((new_consumer k ?ch)\<lparr>group_name := Some (class_group k)\<rparr>)"
  from st have S': "S' = S\<lparr>groups := group_add (class_group k) ?ch (groups S),
      consumers := (consumers S)(?ch \<mapsto> ?c), next_channel := Suc ?ch\<rparr>"
    by (simp add: websocket_connect_def connect_eq Let_def new_consumer_def)
  from inv have fresh: "consumers S ?ch = None"
    unfolding registry_inv_def by (cases "consumers S ?ch") auto
  have c: "state ?c = Open" "group_name ?c = Some (class_group k)" "channel_name ?c = ?ch"
    "cls ?c = k"
    by (simp_all add: accept_def new_consumer_def)
  have a: "\<exists>c. consumers S' ch = Some c \<and> state c = Open \<and> group_name c = Some g"
    if "ch \<in> set (groups S' g)" for g ch
  proof (cases "ch = ?ch")
    case True
    with that inv fresh have "g = class_group k"
      unfolding registry_inv_def S' by (auto simp: set_group_add split: if_splits)
    with True c show ?thesis by (simp add: S')
  next
    case False
    with that have "ch \<in> set (groups S g)"
      by (auto simp: S' set_group_add split: if_splits)
    with inv False show ?thesis unfolding registry_inv_def by (simp add: S')
  qed
  have b: "channel_name c' = ch \<and> ch < next_channel S' \<and>
      group_name c' = Some (class_group (cls c'))"
    if "consumers S' ch = Some c'" for ch c'
  proof (cases "ch = ?ch")
    case True
    with that have "c' = ?c" by (simp add: S')
    with True c show ?thesis by (simp add: S')
  next
    case False
    with that have "consumers S ch = Some c'" by (simp add: S')
    with inv show ?thesis unfolding registry_inv_def by (auto simp: S' less_Suc_eq)
  qed
  have d: "distinct (groups S' g)" for g
    using inv unfolding registry_inv_def by (simp add: S' distinct_group_add)
  from a b d show ?thesis unfolding registry_inv_def by blast
qed

lemma inv_disconnect:
  assumes inv: "registry_inv S" and st: "websocket_disconnect ch code S = Inr S'"
  shows "registry_inv S'"
proof (cases "consumers S ch")
  case None
  with st inv show ?thesis by (simp add: websocket_disconnect_def)
next
  case (Some c)
  with inv have gn: "group_name c = Some (class_group (cls c))" and cn: "channel_name c = ch"
    unfolding registry_inv_def by auto
  let ?g = "class_group (cls c)"
  from st Some gn cn have S': "S' = S\<lparr>groups := group_discard ?g ch (groups S),
      consumers := (consumers S)(ch \<mapsto> c\<lparr>state := Closed\<rparr>)\<rparr>"
    by (simp add: websocket_disconnect_def disconnect_eq)
  have a: "\<exists>c. consumers S' m = Some c \<and> state c = Open \<and> group_name c = Some g"
    if "m \<in> set (groups S' g)" for g m
  proof -
    from that have m: "m \<in> set (groups S g)"
      by (auto simp: S' set_group_discard split: if_splits)
    with inv obtain d where d: "consumers S m = Some d" "state d = Open" "group_name d = Some g"
      unfolding registry_inv_def by blast
    have "m \<noteq> ch"
    proof
      assume "m = ch"
      with d Some gn have "g = ?g" by simp
      with that \<open>m = ch\<close> show False by (simp add: S' set_group_discard)
    qed
    with d show ?thesis by (simp add: S')
  qed
  have b: "channel_name c' = m \<and> m < next_channel S' \<and>
      group_name c' = Some (class_group (cls c'))"
    if "consumers S' m = Some c'" for m c'
  proof (cases "m = ch")
    case True
    with that have "c' = c\<lparr>state := Closed\<rparr>" by (simp add: S')
    with True gn cn inv Some show ?thesis unfolding registry_inv_def by (auto simp: S')
  next
    case False
    with that have "consumers S m = Some c'" by (simp add: S')
    with inv show ?thesis unfolding registry_inv_def by (auto simp: S')
  qed
  have d: "distinct (groups S' g)" for g
    using inv unfolding registry_inv_def by (simp add: S' distinct_group_discard)
  from a b d show ?thesis unfolding registry_inv_def by blast
qed

lemma group_send_consumers:
  assumes inv: "registry_inv S" and st: "group_send g ev S = Inr S'"
  shows "groups S' = groups S" and "next_channel S' = next_channel S"
    and "consumers S m = None \<Longrightarrow> consumers S' m = None"
    and "consumers S m = Some c \<Longrightarrow> m \<notin> set (groups S g) \<Longrightarrow> consumers S' m = Some c"
    and "consumers S m = Some c \<Longrightarrow> m \<in> set (groups S g) \<Longrightarrow>
           \<exists>c'. dispatch c ev = Inr c' \<and> consumers S' m = Some c'"
proof -
  from st obtain cs where d: "deliver_all (groups S g) ev (consumers S) = Inr cs"
    and S': "S' = S\<lparr>consumers := cs\<rparr>"
    by (auto simp: group_send_def split: sum.splits)
  from inv have dist: "distinct (groups S g)" unfolding registry_inv_def by simp
  show "groups S' = groups S" "next_channel S' = next_channel S" by (simp_all add: S')
  show "consumers S m = None \<Longrightarrow> consumers S' m = None"
    using deliver_all_None [OF d] by (simp add: S')
  show "consumers S m = Some c \<Longrightarrow> m \<notin> set (groups S g) \<Longrightarrow> consumers S' m = Some c"
    using deliver_all_other [OF d] by (simp add: S')
  show "consumers S m = Some c \<Longrightarrow> m \<in> set (groups S g) \<Longrightarrow>
           \<exists>c'. dispatch c ev = Inr c' \<and> consumers S' m = Some c'"
    using deliver_all_member [OF d dist] by (simp add: S')
qed

lemma group_send_outbox_only:
  assumes inv: "registry_inv S" and st: "group_send g ev S = Inr S'"
    and c: "consumers S' m = Some c'"
  shows "\<exists>c zs. consumers S m = Some c \<and> c' = c\<lparr>outbox := outbox c @ zs\<rparr>"
proof (cases "consumers S m")
  case None
  with group_send_consumers(3) [OF inv st] c show ?thesis by simp
next
  case (Some d)
  show ?thesis
  proof (cases "m \<in> set (groups S g)")
    case True
    from group_send_consumers(5) [OF inv st Some True] c
    have "dispatch d ev = Inr c'" by auto
    from dispatch_Inr [OF this] Some show ?thesis by blast
  next
    case False
    from group_send_consumers(4) [OF inv st Some False] c have "c' = d\<lparr>outbox := outbox d @ []\<rparr>"
      by simp
    with Some show ?thesis by blast
  qed
qed

lemma inv_group_send:
  assumes inv: "registry_inv S" and st: "group_send g ev S = Inr S'"
  shows "registry_inv S'"
proof -
  note gs = group_send_consumers [OF inv st]
  have keep: "\<exists>c'. consumers S' m = Some c' \<and> state c' = state c \<and>
      group_name c' = group_name c"
    if "consumers S m = Some c" for m c
  proof (cases "m \<in> set (groups S g)")
    case True
    from gs(5) [OF that True] obtain c' where "dispatch c ev = Inr c'" "consumers S' m = Some c'"
      by blast
    with dispatch_Inr [of c ev c'] show ?thesis by auto
  next
    case False
    from gs(4) [OF that False] show ?thesis by simp
  qed
  have a: "\<exists>c. consumers S' m = Some c \<and> state c = Open \<and> group_name c = Some g'"
    if "m \<in> set (groups S' g')" for g' m
  proof -
    from that inv obtain c where "consumers S m = Some c" "state c = Open"
        "group_name c = Some g'"
      unfolding registry_inv_def gs(1) by blast
    with keep [of m c] show ?thesis by auto
  qed
  have b: "channel_name c' = m \<and> m < next_channel S' \<and>
      group_name c' = Some (class_group (cls c'))"
    if "consumers S' m = Some c'" for m c'
  proof -
    from group_send_outbox_only [OF inv st that] obtain c zs
      where "consumers S m = Some c" "c' = c\<lparr>outbox := outbox c @ zs\<rparr>" by blast
    with inv show ?thesis unfolding registry_inv_def gs(2) by auto
  qed
  have d: "distinct (groups S' g')" for g'
    using inv unfolding registry_inv_def gs(1) by simp
  from a b d show ?thesis unfolding registry_inv_def by blast
qed

lemma inv_step: "step S S' \<Longrightarrow> registry_inv S \<Longrightarrow> registry_inv S'"
proof (induction rule: step.induct)
  case (connects k S S')
  then show ?case by (rule inv_connect [rotated])
next
  case (disconnects ch close_code S S')
  then show ?case by (rule inv_disconnect [rotated])
next
  case (publishes g message S S')
  then show ?case by (rule inv_group_send [rotated])
qed (simp_all add: ingest_transaction_def ingest_opportunity_def ingest_metrics_def)

lemma inv_init: "registry_inv init_system"
  by (simp add: registry_inv_def init_system_def)

lemma inv_steps: "step\<^sup>*\<^sup>* S S' \<Longrightarrow> registry_inv S \<Longrightarrow> registry_inv S'"
  by (induction rule: rtranclp_induct) (auto intro: inv_step)

lemma reachable_inv: "reachable S \<Longrightarrow> registry_inv S"
  unfolding reachable_def by (rule inv_steps [OF _ inv_init])

subsection \<open>Publishing in a state that satisfies the invariant\<close>

lemma class_group_inj: "class_group k = class_group k' \<Longrightarrow> k = k'"
  by (cases k; cases k') simp_all

lemma group_send_succeeds:
  assumes inv: "registry_inv S"
    and ok: "\<And>c. cls c = k \<Longrightarrow> \<exists>c'. dispatch c ev = Inr c'"
  shows "\<exists>S'. group_send (class_group k) ev S = Inr S'"
proof -
  have "\<exists>c'. dispatch c ev = Inr c'"
    if "m \<in> set (groups S (class_group k))" "consumers S m = Some c" for m c
  proof -
    from inv that have "group_name c = Some (class_group k)"
      and "group_name c = Some (class_group (cls c))"
      unfolding registry_inv_def by fastforce+
    then have "cls c = k" by (simp add: class_group_inj)
    then show ?thesis by (rule ok)
  qed
  moreover from inv have "distinct (groups S (class_group k))"
    unfolding registry_inv_def by simp
  ultimately obtain cs where "deliver_all (groups S (class_group k)) ev (consumers S) = Inr cs"
    using deliver_all_succeeds by blast
  then show ?thesis by (simp add: group_send_def)
qed

lemma publish_member:
  assumes inv: "registry_inv S" and m: "ch \<in> set (groups S g)"
    and st: "group_send g message S = Inr S'"
  shows "\<exists>c c' f. consumers S ch = Some c \<and> consumers S' ch = Some c' \<and>
           outbox c' = outbox c @ [f] \<and> frame_data f = message ''data''"
proof -
  from inv m obtain c where c: "consumers S ch = Some c" unfolding registry_inv_def by blast
  from group_send_consumers(5) [OF inv st c m] obtain c'
    where c': "dispatch c message = Inr c'" "consumers S' ch = Some c'" by blast
  from dispatch_Inr [OF c'(1)] obtain f
    where "outbox c' = outbox c @ [f]" "frame_data f = message ''data''" by auto
  with c c'(2) show ?thesis by blast
qed

subsection \<open>Reachable states\<close>

lemma reachable_init: "reachable init_system"
  by (simp add: reachable_def)

lemma reachable_step: "reachable S \<Longrightarrow> step S S' \<Longrightarrow> reachable S'"
  unfolding reachable_def by (rule rtranclp.rtrancl_into_rtrancl)

subsection \<open>What later steps do to one session\<close>

lemma closed_unchanged: "state d = Closed \<Longrightarrow> d\<lparr>state := Closed\<rparr> = d"
  by (cases d) simp

lemma silent_step:
  assumes "step S S'" and inv: "registry_inv S"
    and out: "\<forall>g. ch \<notin> set (groups S g)"
    and d: "consumers S ch = Some d" "state d = Closed"
  shows "(\<forall>g. ch \<notin> set (groups S' g)) \<and> consumers S' ch = Some d"
  using assms(1)
proof (cases rule: step.cases)
  case (connects k)
  from inv d(1) have "ch < next_channel S" unfolding registry_inv_def by blast
  with connects out d(1) show ?thesis
    by (auto simp: websocket_connect_def connect_eq Let_def set_group_add new_consumer_def
        split: if_splits)
next
  case (disconnects m close_code)
  show ?thesis
  proof (cases "consumers S m")
    case None
    with disconnects out d show ?thesis by (simp add: websocket_disconnect_def)
  next
    case (Some c)
    with inv have gn: "group_name c = Some (class_group (cls c))"
      unfolding registry_inv_def by blast
    from disconnects Some gn
    have S': "S' = S\<lparr>groups := group_discard (class_group (cls c)) (channel_name c) (groups S),
        consumers := (consumers S)(m \<mapsto> c\<lparr>state := Closed\<rparr>)\<rparr>"
      by (simp add: websocket_disconnect_def disconnect_eq)
    from out have "\<forall>g. ch \<notin> set (groups S' g)"
      by (simp add: S' set_group_discard)
    moreover have "consumers S' ch = Some d"
      using Some d by (cases "m = ch") (simp_all add: S' closed_unchanged)
    ultimately show ?thesis by simp
  qed
next
  case (publishes g message)
  from group_send_consumers(1) [OF inv publishes] out
    group_send_consumers(4) [OF inv publishes d(1)]
  show ?thesis by simp
qed (use out d in \<open>simp_all add: ingest_transaction_def ingest_opportunity_def ingest_metrics_def\<close>)

lemma silent_steps:
  assumes "step\<^sup>*\<^sup>* S S'" and "registry_inv S"
    and "\<forall>g. ch \<notin> set (groups S g)"
    and "consumers S ch = Some d" "state d = Closed"
  shows "registry_inv S' \<and> (\<forall>g. ch \<notin> set (groups S' g)) \<and> consumers S' ch = Some d"
  using assms
proof (induction rule: rtranclp_induct)
  case base
  then show ?case by simp
next
  case (step T U)
  then have T: "registry_inv T" "\<forall>g. ch \<notin> set (groups T g)" "consumers T ch = Some d"
    by simp_all
  from inv_step [OF step.hyps(2) T(1)] silent_step [OF step.hyps(2) T step.prems(4)]
  show ?case by simp
qed

lemma outbox_grows_step:
  assumes "step S S'" and inv: "registry_inv S" and c: "consumers S ch = Some c"
  shows "\<exists>c' zs. consumers S' ch = Some c' \<and> outbox c' = outbox c @ zs"
  using assms(1)
proof (cases rule: step.cases)
  case (connects k)
  from inv c have "ch < next_channel S" unfolding registry_inv_def by blast
  with connects c show ?thesis
    by (auto simp: websocket_connect_def connect_eq Let_def)
next
  case (disconnects m close_code)
  show ?thesis
  proof (cases "consumers S m")
    case None
    with disconnects c show ?thesis by (simp add: websocket_disconnect_def)
  next
    case (Some d)
    with disconnects c show ?thesis
      by (cases "m = ch")
        (auto simp: websocket_disconnect_def disconnect_eq split: option.splits)
  qed
next
  case (publishes g message)
  show ?thesis
  proof (cases "ch \<in> set (groups S g)")
    case True
    from group_send_consumers(5) [OF inv publishes c True] obtain c'
      where "dispatch c message = Inr c'" "consumers S' ch = Some c'" by blast
    with dispatch_Inr [of c message c'] show ?thesis by auto
  next
    case False
    from group_send_consumers(4) [OF inv publishes c False] show ?thesis by simp
  qed
qed (use c in \<open>simp_all add: ingest_transaction_def ingest_opportunity_def ingest_metrics_def\<close>)

lemma outbox_grows_steps:
  assumes "step\<^sup>*\<^sup>* S S'" and "registry_inv S" and "consumers S ch = Some c"
  shows "registry_inv S' \<and> (\<exists>c' zs. consumers S' ch = Some c' \<and> outbox c' = outbox c @ zs)"
  using assms
proof (induction rule: rtranclp_induct)
  case base
  then show ?case by simp
next
  case (step T U)
  then obtain d ys where T: "registry_inv T" "consumers T ch = Some d"
      "outbox d = outbox c @ ys" by auto
  from outbox_grows_step [OF step.hyps(2) T(1,2)] obtain d' zs
    where "consumers U ch = Some d'" "outbox d' = outbox d @ zs" by blast
  with T(3) inv_step [OF step.hyps(2) T(1)] show ?case by simp
qed

subsection \<open>Teardown on an absent channel\<close>

lemma group_discard_absent: "ch \<notin> set (L g) \<Longrightarrow> group_discard g ch L = L"
  by (simp add: group_discard_def)

lemma repeat_disconnect_absent:
  "group_name c = Some g \<Longrightarrow> channel_name c \<notin> set (L g) \<Longrightarrow>
     repeat_disconnect n code (c, L) = Inr (c, L)"
  by (induction n) (simp_all add: disconnect_eq group_discard_absent)

subsection \<open>The scenario\<close>

lemma connect_s1: "websocket_connect TransactionConsumer init_system = Inr s1_open"
  by (simp add: websocket_connect_def connect_def TransactionConsumer_connect_def
      init_system_def new_consumer_def group_add_def accept_def s1_open_def s1_def Let_def)

lemma reachable_s1_open: "reachable s1_open"
  by (rule reachable_step [OF reachable_init step.connects [OF connect_s1]])

lemma get_handler_name_sig_abc: "get_handler_name sig_abc = Inr ''transaction_update''"
  by (simp add: get_handler_name_def sig_abc_def update_event_def)

lemma s1_after_Nil: "s1_after [] = s1_open"
  by (simp add: s1_after_def s1_open_def s1_def)

lemma publish_s1_after:
  "group_send ''transaction_updates'' (update_event ''transaction_update'' d) (s1_after fs) =
     Inr (s1_after (fs @ [transaction_frame d]))"
  by (simp add: group_send_def s1_after_def s1_open_def s1_def dispatch_def
      get_handler_name_def Let_def TransactionConsumer_transaction_update_def getitem_def
      update_event_def send_def transaction_frame_def)

lemma publish_s1_open:
  "group_send ''transaction_updates'' sig_abc s1_open =
     Inr (s1_after [transaction_frame (JObj [(''sig'', JStr ''abc'')])])"
  using publish_s1_after [of "JObj [(''sig'', JStr ''abc'')]" "[]"]
  by (simp add: s1_after_Nil sig_abc_def)

lemma disconnect_s1_open: "websocket_disconnect 0 1000 s1_open = Inr s1_closed"
  by (simp add: websocket_disconnect_def s1_open_def s1_def s1_closed_def disconnect_def
      TransactionConsumer_disconnect_def group_discard_def fun_eq_iff)

subsection \<open>The consumer side of the transactions topic\<close>

text \<open>
  The consumer side of the transactions topic: in a state of an orderly run, an event
  addressed to the transactions handler and published to the group
  \<^verbatim>\<open>transaction_updates\<close> through the channel layer reaches every member, which is
  handed the message with the fields \<^verbatim>\<open>type\<close>, equal to \<^verbatim>\<open>transaction\<close>, and
  \<^verbatim>\<open>data\<close>, equal to the payload.
\<close>

lemma transactions_group_delivery:
  assumes "reachable S"
    and "ch \<in> set (groups S ''transaction_updates'')"
    and "get_handler_name message = Inr ''transaction_update''"
    and "message ''data'' = Some p"
  shows "\<exists>c S'. consumers S ch = Some c \<and> cls c = TransactionConsumer \<and> state c = Open \<and>
           group_send ''transaction_updates'' message S = Inr S' \<and>
           consumers S' ch =
             Some (c\<lparr>outbox := outbox c @
               [TextJSON (JObj [(''type'', JStr ''transaction''), (''data'', p)])]\<rparr>)"
proof -
  from assms(1) have inv: "registry_inv S" by (rule reachable_inv)
  with assms(2) obtain c where c: "consumers S ch = Some c" "state c = Open"
      "group_name c = Some ''transaction_updates''"
      "group_name c = Some (class_group (cls c))"
    unfolding registry_inv_def by fastforce
  then have "class_group (cls c) = class_group TransactionConsumer" by simp
  then have k: "cls c = TransactionConsumer" by (rule class_group_inj)
  have "\<exists>d'. dispatch d message = Inr d'" if "cls d = TransactionConsumer" for d
    using that assms(3,4) by (simp add: dispatch_transaction transaction_update_data)
  with inv have "\<exists>S'. group_send (class_group TransactionConsumer) message S = Inr S'"
    by (rule group_send_succeeds)
  then obtain S' where S': "group_send ''transaction_updates'' message S = Inr S'" by auto
  from group_send_consumers(5) [OF inv S' c(1) assms(2)] obtain c'
    where "dispatch c message = Inr c'" "consumers S' ch = Some c'" by blast
  with k assms(3,4) have "consumers S' ch = Some (c\<lparr>outbox := outbox c @
      [TextJSON (JObj [(''type'', JStr ''transaction''), (''data'', p)])]\<rparr>)"
    by (simp add: dispatch_transaction transaction_update_data)
  with c k S' show ?thesis by blast
qed

section \<open>Every run: the invariant\<close>

lemma handle_frame:
  assumes "handle c message L = (c', L')" and "group_name c = Some g" and "state c = Open"
  shows "cls c' = cls c \<and> channel_name c' = channel_name c \<and> group_name c' = group_name c \<and>
         state c' \<noteq> Closed \<and> (L' = L \<or> L' = group_discard g (channel_name c) L)"
  using assms
  by (auto simp: handle_def crash_def accept_def disconnect_eq
      split: sum.splits if_splits dest!: dispatch_Inr)

lemma run_inv_handle_at:
  assumes inv: "run_inv S"
  shows "run_inv (handle_at ch message S)"
proof (cases "consumers S ch")
  case None
  with inv show ?thesis by (simp add: handle_at_def)
next
  case (Some c)
  show ?thesis
  proof (cases "state c = Open")
    case False
    with Some inv show ?thesis by (simp add: handle_at_def)
  next
    case True
    obtain c' L' where h: "handle c message (groups S) = (c', L')" by (cases "handle c message (groups S)")
    from inv Some have gn: "group_name c = Some (class_group (cls c))" and cn: "channel_name c = ch"
      unfolding run_inv_def by auto
    let ?g = "class_group (cls c)"
    from handle_frame [OF h gn True] cn
    have f: "cls c' = cls c" "channel_name c' = ch" "group_name c' = group_name c"
      "state c' \<noteq> Closed" "L' = groups S \<or> L' = group_discard ?g ch (groups S)"
      by auto
    from Some True h have S': "handle_at ch message S =
        S\<lparr>groups := L', consumers := (consumers S)(ch \<mapsto> c')\<rparr>"
      by (simp add: handle_at_def)
    have sub: "set (L' g) \<subseteq> set (groups S g)" for g
      using f(5) by (auto simp: set_group_discard split: if_splits)
    have a: "\<exists>d. consumers (handle_at ch message S) m = Some d \<and> state d \<noteq> Closed \<and>
        group_name d = Some g"
      if "m \<in> set (groups (handle_at ch message S) g)" for g m
    proof -
      from that sub have "m \<in> set (groups S g)" by (auto simp: S')
      with inv obtain d where d: "consumers S m = Some d" "state d \<noteq> Closed" "group_name d = Some g"
        unfolding run_inv_def by blast
      show ?thesis
      proof (cases "m = ch")
        case True
        with d Some f show ?thesis by (simp add: S')
      next
        case False
        with d show ?thesis by (simp add: S')
      qed
    qed
    have b: "channel_name d = m \<and> m < next_channel (handle_at ch message S) \<and>
        group_name d = Some (class_group (cls d))"
      if "consumers (handle_at ch message S) m = Some d" for m d
    proof (cases "m = ch")
      case True
      with that have "d = c'" by (simp add: S')
      with True f gn inv Some show ?thesis unfolding run_inv_def by (auto simp: S')
    next
      case False
      with that have "consumers S m = Some d" by (simp add: S')
      with inv show ?thesis unfolding run_inv_def by (auto simp: S')
    qed
    from a b show ?thesis unfolding run_inv_def by blast
  qed
qed

lemma run_inv_broadcast_to: "run_inv S \<Longrightarrow> run_inv (broadcast_to ms message S)"
  by (induction ms arbitrary: S) (simp_all add: run_inv_handle_at)

lemma handle_at_other: "m \<noteq> ch \<Longrightarrow> consumers (handle_at ch message S) m = consumers S m"
  by (auto simp: handle_at_def split: option.splits prod.splits)

lemma broadcast_to_other:
  "m \<notin> set ms \<Longrightarrow> consumers (broadcast_to ms message S) m = consumers S m"
  by (induction ms arbitrary: S) (simp_all add: handle_at_other)

lemma run_inv_join:
  assumes inv: "run_inv S"
  shows "run_inv (join k S)"
proof -
  let ?ch = "next_channel S"
  let ?c = "(new_consumer k ?ch)\<lparr>group_name := Some (class_group k)\<rparr>"
  have S': "join k S = S\<lparr>groups := group_add (class_group k) ?ch (groups S),
      consumers := (consumers S)(?ch \<mapsto> ?c), next_channel := Suc ?ch\<rparr>"
    by (simp add: join_def Let_def)
  from inv have fresh: "consumers S ?ch = None"
    unfolding run_inv_def by (cases "consumers S ?ch") auto
  have c: "state ?c = Connecting" "group_name ?c = Some (class_group k)"
    "channel_name ?c = ?ch" "cls ?c = k"
    by (simp_all add: new_consumer_def)
  have a: "\<exists>d. consumers (join k S) m = Some d \<and> state d \<noteq> Closed \<and> group_name d = Some g"
    if "m \<in> set (groups (join k S) g)" for g m
  proof (cases "m = ?ch")
    case True
    with that inv fresh have "g = class_group k"
      unfolding run_inv_def S' by (auto simp: set_group_add split: if_splits)
    with True c show ?thesis by (simp add: S')
  next
    case False
    with that have "m \<in> set (groups S g)"
      by (auto simp: S' set_group_add split: if_splits)
    with inv False show ?thesis unfolding run_inv_def by (simp add: S')
  qed
  have b: "channel_name d = m \<and> m < next_channel (join k S) \<and>
      group_name d = Some (class_group (cls d))"
    if "consumers (join k S) m = Some d" for m d
  proof (cases "m = ?ch")
    case True
    with that have "d = ?c" by (simp add: S')
    with True c show ?thesis by (simp add: S')
  next
    case False
    with that have "consumers S m = Some d" by (simp add: S')
    with inv show ?thesis unfolding run_inv_def by (auto simp: S' less_Suc_eq)
  qed
  from a b show ?thesis unfolding run_inv_def by blast
qed

lemma run_inv_accept:
  assumes inv: "run_inv S" and c: "consumers S ch = Some c"
  shows "run_inv (S\<lparr>consumers := (consumers S)(ch \<mapsto> accept c)\<rparr>)"
proof -
  let ?S = "S\<lparr>consumers := (consumers S)(ch \<mapsto> accept c)\<rparr>"
  from inv c have k: "channel_name c = ch" "ch < next_channel S"
      "group_name c = Some (class_group (cls c))"
    unfolding run_inv_def by auto
  have a: "\<exists>d. consumers ?S m = Some d \<and> state d \<noteq> Closed \<and> group_name d = Some g"
    if "m \<in> set (groups ?S g)" for g m
  proof -
    from that inv obtain d where d: "consumers S m = Some d" "state d \<noteq> Closed"
        "group_name d = Some g"
      unfolding run_inv_def by fastforce
    show ?thesis
    proof (cases "m = ch")
      case True
      with d c show ?thesis by (simp add: accept_def)
    next
      case False
      with d show ?thesis by simp
    qed
  qed
  have b: "channel_name d = m \<and> m < next_channel ?S \<and>
      group_name d = Some (class_group (cls d))"
    if "consumers ?S m = Some d" for m d
  proof (cases "m = ch")
    case True
    with that have "d = accept c" by simp
    with True k show ?thesis by (simp add: accept_def)
  next
    case False
    with that have "consumers S m = Some d" by simp
    with inv show ?thesis unfolding run_inv_def by auto
  qed
  from a b show ?thesis unfolding run_inv_def by blast
qed

lemma run_inv_teardown:
  assumes inv: "run_inv S" and c: "consumers S ch = Some c"
    and st: "websocket_disconnect ch code S = Inr S'"
  shows "run_inv S' \<and> (\<forall>g. ch \<notin> set (groups S' g))"
proof -
  from inv c have gn: "group_name c = Some (class_group (cls c))" and cn: "channel_name c = ch"
    unfolding run_inv_def by auto
  let ?g = "class_group (cls c)"
  from st c gn cn have S': "S' = S\<lparr>groups := group_discard ?g ch (groups S),
      consumers := (consumers S)(ch \<mapsto> c\<lparr>state := Closed\<rparr>)\<rparr>"
    by (simp add: websocket_disconnect_def disconnect_eq)
  have out: "ch \<notin> set (groups S' g)" for g
  proof
    assume m: "ch \<in> set (groups S' g)"
    then have "ch \<in> set (groups S g)" by (auto simp: S' set_group_discard split: if_splits)
    with inv obtain d where "consumers S ch = Some d" "group_name d = Some g"
      unfolding run_inv_def by blast
    with c gn have "g = ?g" by simp
    with m show False by (simp add: S' set_group_discard)
  qed
  have a: "\<exists>d. consumers S' m = Some d \<and> state d \<noteq> Closed \<and> group_name d = Some g"
    if "m \<in> set (groups S' g)" for g m
  proof -
    from that out have "m \<noteq> ch" by auto
    moreover from that have "m \<in> set (groups S g)"
      by (auto simp: S' set_group_discard split: if_splits)
    ultimately show ?thesis using inv unfolding run_inv_def by (simp add: S')
  qed
  have b: "channel_name d = m \<and> m < next_channel S' \<and>
      group_name d = Some (class_group (cls d))"
    if "consumers S' m = Some d" for m d
  proof (cases "m = ch")
    case True
    with that have "d = c\<lparr>state := Closed\<rparr>" by (simp add: S')
    with True gn cn inv c show ?thesis unfolding run_inv_def by (auto simp: S')
  next
    case False
    with that have "consumers S m = Some d" by (simp add: S')
    with inv show ?thesis unfolding run_inv_def by (auto simp: S')
  qed
  from a b out show ?thesis unfolding run_inv_def by blast
qed

lemma run_inv_moves: "moves S S' \<Longrightarrow> run_inv S \<Longrightarrow> run_inv S'"
proof (induction rule: moves.induct)
  case (joins S k)
  then show ?case by (rule run_inv_join)
next
  case (accepts S ch self)
  then show ?case by (simp add: run_inv_accept)
next
  case (tears_down S ch self close_code S')
  then show ?case using run_inv_teardown by blast
next
  case (broadcasts S g message)
  then show ?case by (simp add: broadcast_def run_inv_broadcast_to)
qed (simp_all add: ingest_transaction_def ingest_opportunity_def ingest_metrics_def)

lemma run_inv_init: "run_inv init_system"
  by (simp add: run_inv_def init_system_def)

lemma attainable_inv: "attainable S \<Longrightarrow> run_inv S"
  unfolding attainable_def
  by (induction rule: rtranclp_induct) (auto intro: run_inv_init run_inv_moves)

lemma attainable_init: "attainable init_system"
  by (simp add: attainable_def)

lemma attainable_move: "attainable S \<Longrightarrow> moves S S' \<Longrightarrow> attainable S'"
  unfolding attainable_def by (rule rtranclp.rtrancl_into_rtrancl)

subsection \<open>A session closed by \<^verbatim>\<open>disconnect\<close> in any run\<close>

text \<open>
  A consumer whose \<^verbatim>\<open>disconnect\<close> has run is in no group, so no later move of the
  system reaches it: not a broadcast, not a handler that raises in another consumer, not
  a second teardown.
\<close>

lemma closed_stays_closed_move:
  assumes "moves S S'" and inv: "run_inv S"
    and d: "consumers S ch = Some d" "state d = Closed"
  shows "consumers S' ch = Some d"
  using assms(1)
proof (cases rule: moves.cases)
  case (joins k)
  from inv d(1) have "ch < next_channel S" unfolding run_inv_def by blast
  with joins d(1) show ?thesis by (simp add: join_def Let_def)
next
  case (accepts m self)
  with d have "m \<noteq> ch" by auto
  with accepts d(1) show ?thesis by simp
next
  case (tears_down m self close_code)
  with d have "m \<noteq> ch" by auto
  with tears_down d(1) show ?thesis
    by (auto simp: websocket_disconnect_def disconnect_eq split: option.splits sum.splits)
next
  case (broadcasts g message)
  have "ch \<notin> set (groups S g)"
  proof
    assume "ch \<in> set (groups S g)"
    with inv obtain c where "consumers S ch = Some c" "state c \<noteq> Closed"
      unfolding run_inv_def by blast
    with d show False by simp
  qed
  with broadcasts d(1) show ?thesis by (simp add: broadcast_def broadcast_to_other)
qed (use d in \<open>simp_all add: ingest_transaction_def ingest_opportunity_def
    ingest_metrics_def\<close>)

lemma closed_stays_closed:
  assumes "moves\<^sup>*\<^sup>* S S'" and "run_inv S"
    and "consumers S ch = Some d" and "state d = Closed"
  shows "run_inv S' \<and> consumers S' ch = Some d"
  using assms
proof (induction rule: rtranclp_induct)
  case base
  then show ?case by simp
next
  case (step T U)
  then have T: "run_inv T" "consumers T ch = Some d" by simp_all
  from run_inv_moves [OF step.hyps(2) T(1)]
    closed_stays_closed_move [OF step.hyps(2) T step.prems(3)]
  show ?case by simp
qed

subsection \<open>Every orderly run is a run\<close>

lemma dispatch_handle: "dispatch c message = Inr c' \<Longrightarrow> handle c message L = (c', L)"
  by (auto simp: handle_def dispatch_def split: sum.splits if_splits)

lemma deliver_all_broadcast_to:
  "deliver_all ms message (consumers S) = Inr cs' \<Longrightarrow> distinct ms \<Longrightarrow>
     (\<forall>m c. m \<in> set ms \<longrightarrow> consumers S m = Some c \<longrightarrow> state c = Open) \<Longrightarrow>
     broadcast_to ms message S = S\<lparr>consumers := cs'\<rparr>"
proof (induction ms arbitrary: S)
  case Nil
  then show ?case by simp
next
  case (Cons a ms)
  show ?case
  proof (cases "consumers S a")
    case None
    with Cons.prems have "deliver_all ms message (consumers S) = Inr cs'" by simp
    moreover from None have "handle_at a message S = S" by (simp add: handle_at_def)
    ultimately show ?thesis using Cons.IH [of S] Cons.prems by simp
  next
    case (Some c)
    with Cons.prems obtain c' where d: "dispatch c message = Inr c'"
      and r: "deliver_all ms message ((consumers S)(a \<mapsto> c')) = Inr cs'"
      by (auto split: sum.splits)
    let ?S1 = "S\<lparr>consumers := (consumers S)(a \<mapsto> c')\<rparr>"
    from Some Cons.prems(3) have "state c = Open" by simp
    with Some dispatch_handle [OF d] have h: "handle_at a message S = ?S1"
      by (simp add: handle_at_def)
    have "broadcast_to ms message ?S1 = ?S1\<lparr>consumers := cs'\<rparr>"
    proof (rule Cons.IH)
      show "deliver_all ms message (consumers ?S1) = Inr cs'" using r by simp
      show "distinct ms" using Cons.prems(2) by simp
      show "\<forall>m c. m \<in> set ms \<longrightarrow> consumers ?S1 m = Some c \<longrightarrow> state c = Open"
        using Cons.prems(2,3) by auto
    qed
    with h show ?thesis by simp
  qed
qed

lemma group_send_broadcast:
  assumes "registry_inv S" and "group_send g message S = Inr S'"
  shows "broadcast g message S = S'"
proof -
  from assms(2) obtain cs where d: "deliver_all (groups S g) message (consumers S) = Inr cs"
    and S': "S' = S\<lparr>consumers := cs\<rparr>"
    by (auto simp: group_send_def split: sum.splits)
  from assms(1) have "distinct (groups S g)"
    and "\<forall>m c. m \<in> set (groups S g) \<longrightarrow> consumers S m = Some c \<longrightarrow> state c = Open"
    unfolding registry_inv_def by fastforce+
  from deliver_all_broadcast_to [OF d this] S' show ?thesis by (simp add: broadcast_def)
qed

lemma websocket_connect_join:
  "websocket_connect k S =
     Inr ((join k S)\<lparr>consumers := (consumers (join k S))
       (next_channel S \<mapsto> accept ((new_consumer k (next_channel S))
          \<lparr>group_name := Some (class_group k)\<rparr>))\<rparr>)"
  by (simp add: websocket_connect_def connect_eq join_def Let_def new_consumer_def)

lemma step_moves:
  assumes "step S S'" and inv: "registry_inv S"
    and states: "\<forall>ch c. consumers S ch = Some c \<longrightarrow> state c = Open \<or> state c = Closed"
  shows "moves\<^sup>*\<^sup>* S S'"
  using assms(1)
proof (cases rule: step.cases)
  case (connects k)
  let ?c = "(new_consumer k (next_channel S))\<lparr>group_name := Some (class_group k)\<rparr>"
  have 1: "moves S (join k S)" by (rule moves.joins)
  have "consumers (join k S) (next_channel S) = Some ?c" "state ?c = Connecting"
    by (simp_all add: join_def Let_def new_consumer_def)
  from moves.accepts [OF this] connects websocket_connect_join [of k S]
  have 2: "moves (join k S) S'" by simp
  from 1 2 show ?thesis by auto
next
  case (disconnects ch close_code)
  show ?thesis
  proof (cases "consumers S ch")
    case None
    with disconnects show ?thesis by (simp add: websocket_disconnect_def)
  next
    case (Some c)
    show ?thesis
    proof (cases "state c = Open")
      case True
      from moves.tears_down [OF Some True disconnects] show ?thesis by auto
    next
      case False
      with states Some have closed: "state c = Closed" by blast
      from inv Some have gn: "group_name c = Some (class_group (cls c))"
        and cn: "channel_name c = ch"
        unfolding registry_inv_def by auto
      have "ch \<notin> set (groups S (class_group (cls c)))"
      proof
        assume "ch \<in> set (groups S (class_group (cls c)))"
        with inv obtain d where "consumers S ch = Some d" "state d = Open"
          unfolding registry_inv_def by blast
        with Some closed show False by simp
      qed
      then have "group_discard (class_group (cls c)) ch (groups S) = groups S"
        by (simp add: group_discard_def)
      moreover from Some closed have "(consumers S)(ch \<mapsto> c\<lparr>state := Closed\<rparr>) = consumers S"
        by (simp add: closed_unchanged map_upd_triv)
      ultimately have "S' = S"
        using disconnects Some gn cn by (simp add: websocket_disconnect_def disconnect_eq)
      then show ?thesis by simp
    qed
  qed
next
  case (publishes g message)
  from group_send_broadcast [OF inv publishes] moves.broadcasts [of S g message]
  show ?thesis by auto
next
  case (ingests_transaction request r)
  then show ?thesis by (auto intro: moves.ingests_transaction)
next
  case (ingests_opportunity request r)
  then show ?thesis by (auto intro: moves.ingests_opportunity)
next
  case (ingests_metrics request r)
  then show ?thesis by (auto intro: moves.ingests_metrics)
qed

lemma orderly_states_step:
  assumes "step S S'" and inv: "registry_inv S"
    and states: "\<forall>ch c. consumers S ch = Some c \<longrightarrow> state c = Open \<or> state c = Closed"
  shows "\<forall>ch c. consumers S' ch = Some c \<longrightarrow> state c = Open \<or> state c = Closed"
  using assms(1)
proof (cases rule: step.cases)
  case (connects k)
  show ?thesis
  proof (intro allI impI)
    fix ch c assume c: "consumers S' ch = Some c"
    show "state c = Open \<or> state c = Closed"
    proof (cases "ch = next_channel S")
      case True
      with c connects show ?thesis
        by (auto simp: websocket_connect_def connect_eq Let_def accept_def)
    next
      case False
      with c connects have "consumers S ch = Some c"
        by (auto simp: websocket_connect_def connect_eq Let_def)
      with states show ?thesis by blast
    qed
  qed
next
  case (disconnects m close_code)
  show ?thesis
  proof (intro allI impI)
    fix ch c assume c: "consumers S' ch = Some c"
    show "state c = Open \<or> state c = Closed"
    proof (cases "consumers S m")
      case None
      with c disconnects states show ?thesis by (simp add: websocket_disconnect_def)
    next
      case (Some d)
      show ?thesis
      proof (cases "ch = m")
        case True
        with c disconnects Some show ?thesis
          by (auto simp: websocket_disconnect_def disconnect_eq split: option.splits)
      next
        case False
        with c disconnects Some have "consumers S ch = Some c"
          by (auto simp: websocket_disconnect_def disconnect_eq split: option.splits)
        with states show ?thesis by blast
      qed
    qed
  qed
next
  case (publishes g message)
  show ?thesis
  proof (intro allI impI)
    fix ch c assume "consumers S' ch = Some c"
    from group_send_outbox_only [OF inv publishes this] obtain d zs
      where "consumers S ch = Some d" "c = d\<lparr>outbox := outbox d @ zs\<rparr>" by blast
    with states show "state c = Open \<or> state c = Closed" by auto
  qed
qed (use states in \<open>simp_all add: ingest_transaction_def ingest_opportunity_def
    ingest_metrics_def\<close>)

lemma orderly_steps_moves:
  assumes "step\<^sup>*\<^sup>* S S'" and "registry_inv S"
    and "\<forall>ch c. consumers S ch = Some c \<longrightarrow> state c = Open \<or> state c = Closed"
  shows "registry_inv S' \<and>
         (\<forall>ch c. consumers S' ch = Some c \<longrightarrow> state c = Open \<or> state c = Closed) \<and>
         moves\<^sup>*\<^sup>* S S'"
  using assms
proof (induction rule: rtranclp_induct)
  case base
  then show ?case by simp
next
  case (step T U)
  then have T: "registry_inv T"
      "\<forall>ch c. consumers T ch = Some c \<longrightarrow> state c = Open \<or> state c = Closed"
      "moves\<^sup>*\<^sup>* S T"
    by simp_all
  from inv_step [OF step.hyps(2) T(1)] orderly_states_step [OF step.hyps(2) T(1,2)]
    step_moves [OF step.hyps(2) T(1,2)] T(3)
  show ?case by auto
qed

lemma reachable_attainable: "reachable S \<Longrightarrow> attainable S"
  unfolding reachable_def attainable_def
  using orderly_steps_moves [of init_system S] inv_init
  by (simp add: init_system_def)

lemma attainable_s1_open: "attainable s1_open"
  by (rule reachable_attainable [OF reachable_s1_open])

section \<open>Counters in the range of the column do not overflow\<close>


section \<open>The claims\<close>

text \<open>
  C1, at its failing input. Session \<open>s1\<close> is open on the transactions topic and the
  event of the end-to-end scenario, topic \<^verbatim>\<open>transactions\<close>, event type
  \<^verbatim>\<open>transaction\<close>, payload \<^verbatim>\<open>{"sig": "abc"}\<close>, is handed to the ingestion endpoint.
  The endpoint answers 201 and the system is exactly as before: \<open>s1\<close> has been
  handed the acceptance of its handshake and nothing else, so no message has reached
  it.
\<close>

theorem ingest_delivers_nothing:
  "0 \<in> set (groups s1_open ''transaction_updates'') \<and>
   consumers s1_open 0 = Some s1 \<and> state s1 = Open \<and> outbox s1 = [Accept] \<and>
   ingest_transaction sig_abc_request s1_open =
     (\<lparr>response_data = JObj [(''status'', JStr ''Transaction ingested'')], status = 201\<rparr>,
      s1_open)"
  by (simp add: ingest_transaction_def HTTP_201_CREATED_def s1_open_def s1_def)

text \<open>
  C2, as stated, fails: a request whose raw event has an empty topic, and one whose
  event type is null, are both answered with status 201 and the body
  \<^verbatim>\<open>{"status": "Transaction ingested"}\<close>; neither is rejected.
\<close>

theorem ingest_malformed_counterexample:
  "ingest_transaction empty_topic_request s1_open =
     (\<lparr>response_data = JObj [(''status'', JStr ''Transaction ingested'')], status = 201\<rparr>,
      s1_open) \<and>
   ingest_transaction null_type_request s1_open =
     (\<lparr>response_data = JObj [(''status'', JStr ''Transaction ingested'')], status = 201\<rparr>,
      s1_open)"
  by (simp add: ingest_transaction_def HTTP_201_CREATED_def)

text \<open>
  C2, amended. A call of the ingestion endpoint whose raw event has an empty topic, or
  whose event type is missing or null, is not rejected: it is answered with status 201
  and the body \<^verbatim>\<open>{"status": "Transaction ingested"}\<close>. It causes no dispatcher activity:
  the registry and every session are exactly as before the call, and the answer is the
  same in every state of the system, so nothing was looked up. No other ingestion is
  affected: any request made after the call gets the result it would have got without
  it.
\<close>

theorem malformed_event_accepted:
  assumes "malformed request"
  shows "fst (ingest_transaction request S) =
           \<lparr>response_data = JObj [(''status'', JStr ''Transaction ingested'')], status = 201\<rparr> \<and>
         snd (ingest_transaction request S) = S \<and>
         (\<forall>S'. fst (ingest_transaction request S') = fst (ingest_transaction request S)) \<and>
         (\<forall>request'. ingest_transaction request' (snd (ingest_transaction request S)) =
                      ingest_transaction request' S)"
  by (simp add: ingest_transaction_def HTTP_201_CREATED_def)

text \<open>The amended C2 at the two malformed requests.\<close>

theorem malformed_event_accepted_witness:
  "malformed empty_topic_request \<and> malformed null_type_request \<and>
   status (fst (ingest_transaction empty_topic_request s1_open)) = 201 \<and>
   snd (ingest_transaction empty_topic_request s1_open) = s1_open \<and>
   status (fst (ingest_transaction null_type_request s1_open)) = 201 \<and>
   snd (ingest_transaction null_type_request s1_open) = s1_open \<and>
   fst (ingest_transaction empty_topic_request s1_closed) =
     fst (ingest_transaction empty_topic_request s1_open) \<and>
   ingest_transaction sig_abc_request (snd (ingest_transaction null_type_request s1_open)) =
     ingest_transaction sig_abc_request s1_open"
proof -
  have m1: "malformed empty_topic_request"
    by (simp add: malformed_def raw_field_def empty_topic_request_def)
  have m2: "malformed null_type_request"
    by (simp add: malformed_def raw_field_def null_type_request_def)
  note t1 = malformed_event_accepted [OF m1, of s1_open]
  note t2 = malformed_event_accepted [OF m2, of s1_open]
  from t1 have "status (fst (ingest_transaction empty_topic_request s1_open)) = 201"
    "snd (ingest_transaction empty_topic_request s1_open) = s1_open"
    by simp_all
  moreover from t1 have "fst (ingest_transaction empty_topic_request s1_closed) =
       fst (ingest_transaction empty_topic_request s1_open)"
    by blast
  moreover from t2 have "status (fst (ingest_transaction null_type_request s1_open)) = 201"
    "snd (ingest_transaction null_type_request s1_open) = s1_open"
    by simp_all
  moreover from t2 have "ingest_transaction sig_abc_request
        (snd (ingest_transaction null_type_request s1_open)) =
      ingest_transaction sig_abc_request s1_open"
    by blast
  ultimately show ?thesis using m1 m2 by blast
qed

text \<open>
  C3, as stated, fails: \<open>s1\<close> is registered under \<^verbatim>\<open>transaction_updates\<close>, and a
  second \<^verbatim>\<open>connect\<close> of \<open>s1\<close> returns normally.
\<close>

theorem second_connect_counterexample:
  "channel_name s1 \<in> set (groups s1_open ''transaction_updates'') \<and>
   connect s1 (groups s1_open) = Inr (s1\<lparr>outbox := [Accept, Accept]\<rparr>, groups s1_open)"
  by (simp add: connect_def TransactionConsumer_connect_def group_add_def accept_def
      s1_def s1_open_def)

text \<open>
  C3, amended. For every registry state and every session whose channel is already
  registered under the group of its class, a second \<^verbatim>\<open>connect\<close> of that session
  returns normally, and the registry after the call equals the registry before it.
\<close>

theorem second_connect_returns:
  "channel_name c \<in> set (L (class_group (cls c))) \<Longrightarrow>
     connect c L = Inr (accept (c\<lparr>group_name := Some (class_group (cls c))\<rparr>), L)"
  by (simp add: connect_eq group_add_def)

text \<open>The amended C3 at the session \<open>s1\<close>, which is registered already.\<close>

theorem second_connect_returns_witness:
  "channel_name s1 \<in> set (groups s1_open (class_group (cls s1))) \<and>
   connect s1 (groups s1_open) =
     Inr (accept (s1\<lparr>group_name := Some (class_group (cls s1))\<rparr>), groups s1_open)"
proof -
  have m: "channel_name s1 \<in> set (groups s1_open (class_group (cls s1)))"
    by (simp add: s1_def s1_open_def)
  from m second_connect_returns [of s1 "groups s1_open"] show ?thesis by simp
qed

text \<open>
  C5, as stated, fails in two attainable states. When the first \<^verbatim>\<open>connect\<close> on the
  transactions route has returned from \<^verbatim>\<open>group_add\<close>, its session is registered and
  still \<open>Connecting\<close>. When an event without \<^verbatim>\<open>data\<close> is published while \<open>s1\<close> is
  open, the handler of \<open>s1\<close> raises: \<open>s1\<close> is \<open>Crashed\<close> and still registered.
\<close>

theorem registered_not_open_counterexample:
  "attainable (join TransactionConsumer init_system) \<and>
   0 \<in> set (groups (join TransactionConsumer init_system) ''transaction_updates'') \<and>
   map_option state (consumers (join TransactionConsumer init_system) 0) = Some Connecting \<and>
   attainable (broadcast ''transaction_updates'' no_data s1_open) \<and>
   0 \<in> set (groups (broadcast ''transaction_updates'' no_data s1_open) ''transaction_updates'') \<and>
   map_option state (consumers (broadcast ''transaction_updates'' no_data s1_open) 0) =
     Some Crashed"
proof -
  have 1: "attainable (join TransactionConsumer init_system)"
    by (rule attainable_move [OF attainable_init moves.joins])
  have 2: "0 \<in> set (groups (join TransactionConsumer init_system) ''transaction_updates'')"
    "map_option state (consumers (join TransactionConsumer init_system) 0) = Some Connecting"
    by (simp_all add: join_def init_system_def group_add_def new_consumer_def Let_def)
  have 3: "attainable (broadcast ''transaction_updates'' no_data s1_open)"
    by (rule attainable_move [OF attainable_s1_open moves.broadcasts])
  have 4: "0 \<in> set (groups (broadcast ''transaction_updates'' no_data s1_open)
        ''transaction_updates'')"
    "map_option state (consumers (broadcast ''transaction_updates'' no_data s1_open) 0) =
       Some Crashed"
    by (simp_all add: broadcast_def s1_open_def s1_def handle_at_def handle_def
        get_handler_name_def Let_def dispatch_def TransactionConsumer_transaction_update_def
        getitem_def no_data_def crash_def)
  from 1 2 3 4 show ?thesis by blast
qed

text \<open>
  C5, amended. In every attainable state, a channel is a member of at most one group;
  every member of a group is the channel of a session whose \<open>group_name\<close>, assigned at
  connect time, is that group, and the session is \<open>Connecting\<close>, \<open>Open\<close> or
  \<open>Crashed\<close>, never one that \<^verbatim>\<open>disconnect\<close> has closed; closing an open session by
  \<^verbatim>\<open>disconnect\<close> leaves it in no group; and a publish to a group \<open>g\<close> changes a session
  only if \<open>g\<close> is the group the session registered for.
\<close>

theorem registry_in_every_run:
  assumes "attainable S"
  shows "(\<forall>ch g g'. ch \<in> set (groups S g) \<longrightarrow> ch \<in> set (groups S g') \<longrightarrow> g = g') \<and>
         (\<forall>ch g. ch \<in> set (groups S g) \<longrightarrow>
            (\<exists>c. consumers S ch = Some c \<and> group_name c = Some g \<and>
                 (state c = Connecting \<or> state c = Open \<or> state c = Crashed))) \<and>
         (\<forall>ch c close_code S'.
            consumers S ch = Some c \<longrightarrow> state c = Open \<longrightarrow>
            websocket_disconnect ch close_code S = Inr S' \<longrightarrow>
            (\<forall>g. ch \<notin> set (groups S' g))) \<and>
         (\<forall>g message ch c.
            consumers S ch = Some c \<longrightarrow> consumers (broadcast g message S) ch \<noteq> Some c \<longrightarrow>
            group_name c = Some g)"
proof -
  from assms have inv: "run_inv S" by (rule attainable_inv)
  have member: "\<exists>c. consumers S ch = Some c \<and> group_name c = Some g \<and>
      (state c = Connecting \<or> state c = Open \<or> state c = Crashed)"
    if "ch \<in> set (groups S g)" for ch g
  proof -
    from inv that obtain c where c: "consumers S ch = Some c" "state c \<noteq> Closed"
        "group_name c = Some g"
      unfolding run_inv_def by blast
    from c(2) have "state c = Connecting \<or> state c = Open \<or> state c = Crashed"
      by (cases "state c") simp_all
    with c show ?thesis by blast
  qed
  have one_topic: "g = g'" if "ch \<in> set (groups S g)" "ch \<in> set (groups S g')" for ch g g'
  proof -
    from member [OF that(1)] member [OF that(2)] obtain c c'
      where "consumers S ch = Some c" "group_name c = Some g"
        and "consumers S ch = Some c'" "group_name c' = Some g'"
      by blast
    then show ?thesis by simp
  qed
  have unregisters: "\<forall>g. ch \<notin> set (groups S' g)"
    if "consumers S ch = Some c" "websocket_disconnect ch close_code S = Inr S'"
    for ch c close_code S'
    using run_inv_teardown [OF inv that] by simp
  have own_topic: "group_name c = Some g"
    if "consumers S ch = Some c" "consumers (broadcast g message S) ch \<noteq> Some c"
    for g message ch c
  proof -
    from that broadcast_to_other [of ch "groups S g" message S]
    have "ch \<in> set (groups S g)" by (auto simp: broadcast_def)
    from member [OF this] that(1) show ?thesis by simp
  qed
  from one_topic member unregisters own_topic show ?thesis by blast
qed

text \<open>The amended C5 in the attainable state where \<open>s1\<close> is the only session.\<close>

theorem registry_in_every_run_witness:
  "attainable s1_open \<and> 0 \<in> set (groups s1_open ''transaction_updates'') \<and>
   0 \<notin> set (groups s1_open ''dashboard_updates'') \<and>
   (\<exists>c. consumers s1_open 0 = Some c \<and> group_name c = Some ''transaction_updates'' \<and>
        (state c = Connecting \<or> state c = Open \<or> state c = Crashed)) \<and>
   consumers s1_open 0 = Some s1 \<and> state s1 = Open \<and>
   websocket_disconnect 0 1000 s1_open = Inr s1_closed \<and>
   0 \<notin> set (groups s1_closed ''transaction_updates'')"
proof -
  have m: "0 \<in> set (groups s1_open ''transaction_updates'')" by (simp add: s1_open_def)
  have c: "consumers s1_open 0 = Some s1" "state s1 = Open"
    by (simp_all add: s1_open_def s1_def)
  note t = registry_in_every_run [OF attainable_s1_open]
  from t m have "\<exists>c. consumers s1_open 0 = Some c \<and>
      group_name c = Some ''transaction_updates'' \<and>
      (state c = Connecting \<or> state c = Open \<or> state c = Crashed)" by blast
  moreover from t m have "0 \<notin> set (groups s1_open ''dashboard_updates'')" by fastforce
  moreover from t c disconnect_s1_open
  have "0 \<notin> set (groups s1_closed ''transaction_updates'')" by blast
  ultimately show ?thesis using attainable_s1_open m c disconnect_s1_open by blast
qed

text \<open>
  C6. Let a session be open on a topic in a reachable state, and let an event be one
  that is delivered to it there. Once the session is closed, it is \<open>Closed\<close> with
  the frames it had; a call of the ingestion endpoint changes nothing; publishing the
  same event again succeeds and leaves the closed session untouched; and in every
  state the system can reach afterwards the closed session is still exactly as it was
  when it closed, so no frame is ever sent to it again.
\<close>

theorem closed_session_silent:
  assumes "reachable S" and "consumers S ch = Some c" and "ch \<in> set (groups S g)"
    and "group_send g message S = Inr Sa"
    and "websocket_disconnect ch close_code S = Inr S1"
  shows "consumers S1 ch = Some (c\<lparr>state := Closed\<rparr>) \<and>
         (\<forall>request. snd (ingest_transaction request S1) = S1) \<and>
         (\<exists>S2. group_send g message S1 = Inr S2 \<and>
            consumers S2 ch = Some (c\<lparr>state := Closed\<rparr>)) \<and>
         (\<forall>S2. step\<^sup>*\<^sup>* S1 S2 \<longrightarrow> consumers S2 ch = Some (c\<lparr>state := Closed\<rparr>))"
proof -
  from assms(1) have inv: "registry_inv S" by (rule reachable_inv)
  with assms(2,3) have gn: "group_name c = Some g" and cn: "channel_name c = ch"
    unfolding registry_inv_def by fastforce+
  from assms(5,2) gn cn have S1: "S1 = S\<lparr>groups := group_discard g ch (groups S),
      consumers := (consumers S)(ch \<mapsto> c\<lparr>state := Closed\<rparr>)\<rparr>"
    by (simp add: websocket_disconnect_def disconnect_eq)
  have inv1: "registry_inv S1" by (rule inv_disconnect [OF inv assms(5)])
  have c1: "consumers S1 ch = Some (c\<lparr>state := Closed\<rparr>)" by (simp add: S1)
  have out: "\<forall>g'. ch \<notin> set (groups S1 g')"
  proof (intro allI notI)
    fix g' assume "ch \<in> set (groups S1 g')"
    with inv1 c1 show False unfolding registry_inv_def by fastforce
  qed
  have later: "consumers S2 ch = Some (c\<lparr>state := Closed\<rparr>)" if "step\<^sup>*\<^sup>* S1 S2" for S2
    using silent_steps [OF that inv1 out c1] by simp
  from assms(4) obtain cs where del: "deliver_all (groups S g) message (consumers S) = Inr cs"
    by (auto simp: group_send_def split: sum.splits)
  from inv have dist: "distinct (groups S g)" unfolding registry_inv_def by simp
  have "\<exists>x'. dispatch x message = Inr x'"
    if "m \<in> set (groups S1 g)" "consumers S1 m = Some x" for m x
  proof -
    from that(1) have "m \<in> set (groups S g)" "m \<noteq> ch"
      by (auto simp: S1 set_group_discard)
    moreover with that(2) have "consumers S m = Some x" by (simp add: S1)
    ultimately show ?thesis using deliver_all_member [OF del dist] by blast
  qed
  moreover from inv1 have "distinct (groups S1 g)" unfolding registry_inv_def by simp
  ultimately obtain cs1 where "deliver_all (groups S1 g) message (consumers S1) = Inr cs1"
    using deliver_all_succeeds by blast
  then obtain S2 where S2: "group_send g message S1 = Inr S2" by (simp add: group_send_def)
  then have "step\<^sup>*\<^sup>* S1 S2" by (intro r_into_rtranclp step.publishes)
  from later [OF this] S2
  have again: "\<exists>S2. group_send g message S1 = Inr S2 \<and>
      consumers S2 ch = Some (c\<lparr>state := Closed\<rparr>)" by blast
  have rest: "\<forall>request. snd (ingest_transaction request S1) = S1"
    by (simp add: ingest_transaction_def)
  from c1 rest again later show ?thesis by blast
qed

text \<open>The scenario of C6: \<open>s1\<close> is closed and the same event is published again.\<close>

theorem closed_session_silent_witness:
  "reachable s1_open \<and> consumers s1_open 0 = Some s1 \<and>
   0 \<in> set (groups s1_open ''transaction_updates'') \<and>
   group_send ''transaction_updates'' sig_abc s1_open =
     Inr (s1_after [transaction_frame (JObj [(''sig'', JStr ''abc'')])]) \<and>
   websocket_disconnect 0 1000 s1_open = Inr s1_closed \<and>
   consumers s1_closed 0 = Some (s1\<lparr>state := Closed\<rparr>) \<and>
   (\<exists>S2. group_send ''transaction_updates'' sig_abc s1_closed = Inr S2 \<and>
      consumers S2 0 = Some (s1\<lparr>state := Closed\<rparr>))"
proof -
  have c: "consumers s1_open 0 = Some s1" by (simp add: s1_open_def)
  have m: "0 \<in> set (groups s1_open ''transaction_updates'')" by (simp add: s1_open_def)
  note t = closed_session_silent [OF reachable_s1_open c m publish_s1_open disconnect_s1_open]
  with reachable_s1_open c m publish_s1_open disconnect_s1_open show ?thesis by blast
qed

text \<open>
  C7. For every registry state and every session that has run \<^verbatim>\<open>connect\<close> (so that
  its \<open>group_name\<close> is assigned): when the session's channel is absent from the
  registry, \<^verbatim>\<open>disconnect\<close> returns normally and leaves session and registry as they
  were, however many times it is called; and from any registry state, every positive
  number of calls in a row ends in the same state as a single call.
\<close>

theorem disconnect_idempotent:
  assumes "group_name c = Some g"
  shows "(channel_name c \<notin> set (L g) \<longrightarrow>
            disconnect c code L = Inr (c, L) \<and>
            (\<forall>n. repeat_disconnect n code (c, L) = Inr (c, L))) \<and>
         (\<forall>n. repeat_disconnect (Suc n) code (c, L) =
               Inr (c, group_discard g (channel_name c) L))"
proof -
  have "repeat_disconnect (Suc n) code (c, L) = Inr (c, group_discard g (channel_name c) L)"
    for n
    using assms repeat_disconnect_absent [of c g "group_discard g (channel_name c) L" n code]
    by (simp add: disconnect_eq set_group_discard)
  moreover have "disconnect c code L = Inr (c, L)" if "channel_name c \<notin> set (L g)"
    using assms that by (simp add: disconnect_eq group_discard_absent)
  ultimately show ?thesis using assms by (simp add: repeat_disconnect_absent)
qed

text \<open>
  C7 at the session \<open>s1\<close>: absent from the empty registry, and registered in the
  registry of \<open>s1_open\<close>.
\<close>

theorem disconnect_idempotent_witness:
  "group_name s1 = Some ''transaction_updates'' \<and>
   channel_name s1 \<notin> set ((\<lambda>g. []) ''transaction_updates'') \<and>
   disconnect s1 1000 (\<lambda>g. []) = Inr (s1, \<lambda>g. []) \<and>
   repeat_disconnect 3 1000 (s1, \<lambda>g. []) = Inr (s1, \<lambda>g. []) \<and>
   repeat_disconnect 3 1000 (s1, groups s1_open) =
     Inr (s1, group_discard ''transaction_updates'' (channel_name s1) (groups s1_open))"
proof -
  have g: "group_name s1 = Some ''transaction_updates''" by (simp add: s1_def)
  have a: "channel_name s1 \<notin> set ((\<lambda>g. []) ''transaction_updates'')" by simp
  note t1 = disconnect_idempotent [OF g, of "\<lambda>g. []" 1000]
  note t2 = disconnect_idempotent [OF g, of "groups s1_open" 1000]
  from t1 a have "disconnect s1 1000 (\<lambda>g. []) = Inr (s1, \<lambda>g. [])"
    and "repeat_disconnect 3 1000 (s1, \<lambda>g. []) = Inr (s1, \<lambda>g. [])" by blast+
  moreover from t2 have "repeat_disconnect (Suc 2) 1000 (s1, groups s1_open) =
     Inr (s1, group_discard ''transaction_updates'' (channel_name s1) (groups s1_open))"
    by blast
  ultimately show ?thesis using g a by (simp add: numeral_3_eq_3)
qed

text \<open>
  C8. Let a producer publish \<open>A\<close> to a group in a reachable state and, after any
  further steps of the system, publish \<open>B\<close> to the same group. A subscriber that is
  a member of the group at both publishes is handed a frame carrying the payload of
  \<open>A\<close>, then whatever the steps in between sent to it, then a frame carrying the
  payload of \<open>B\<close>: the frame of \<open>A\<close> comes before the frame of \<open>B\<close>.
\<close>

theorem fifo_per_topic:
  assumes "reachable S" and "ch \<in> set (groups S g)"
    and "group_send g A S = Inr S1"
    and "step\<^sup>*\<^sup>* S1 S1'" and "ch \<in> set (groups S1' g)"
    and "group_send g B S1' = Inr S2"
  shows "\<exists>c c1 c1' c2 fA fB mid.
           consumers S ch = Some c \<and> consumers S1 ch = Some c1 \<and>
           consumers S1' ch = Some c1' \<and> consumers S2 ch = Some c2 \<and>
           outbox c1 = outbox c @ [fA] \<and> frame_data fA = A ''data'' \<and>
           outbox c1' = outbox c1 @ mid \<and>
           outbox c2 = outbox c1' @ [fB] \<and> frame_data fB = B ''data'' \<and>
           outbox c2 = outbox c @ [fA] @ mid @ [fB]"
proof -
  from assms(1) have inv: "registry_inv S" by (rule reachable_inv)
  from publish_member [OF inv assms(2,3)] obtain c c1 fA
    where 1: "consumers S ch = Some c" "consumers S1 ch = Some c1"
      "outbox c1 = outbox c @ [fA]" "frame_data fA = A ''data''" by blast
  have inv1: "registry_inv S1" by (rule inv_group_send [OF inv assms(3)])
  from outbox_grows_steps [OF assms(4) inv1 1(2)] obtain c1' mid
    where 2: "registry_inv S1'" "consumers S1' ch = Some c1'" "outbox c1' = outbox c1 @ mid"
    by blast
  from publish_member [OF 2(1) assms(5,6)] 2(2) obtain c2 fB
    where 3: "consumers S2 ch = Some c2" "outbox c2 = outbox c1' @ [fB]"
      "frame_data fB = B ''data''" by auto
  from 1(3) 2(3) 3(2) have "outbox c2 = outbox c @ [fA] @ mid @ [fB]" by simp
  with 1 2(2,3) 3 show ?thesis by blast
qed

text \<open>
  The scenario of C8: with \<open>s1\<close> connected throughout, \<^verbatim>\<open>"A"\<close> and then \<^verbatim>\<open>"B"\<close>
  are published; \<open>s1\<close> has been handed the frame of \<^verbatim>\<open>"A"\<close> and then that of
  \<^verbatim>\<open>"B"\<close>.
\<close>

theorem fifo_per_topic_witness:
  "reachable s1_open \<and> 0 \<in> set (groups s1_open ''transaction_updates'') \<and>
   group_send ''transaction_updates'' (update_event ''transaction_update'' (JStr ''A'')) s1_open =
     Inr (s1_after [transaction_frame (JStr ''A'')]) \<and>
   group_send ''transaction_updates'' (update_event ''transaction_update'' (JStr ''B''))
       (s1_after [transaction_frame (JStr ''A'')]) =
     Inr (s1_after [transaction_frame (JStr ''A''), transaction_frame (JStr ''B'')]) \<and>
   (\<exists>c2 fA fB.
      consumers (s1_after [transaction_frame (JStr ''A''), transaction_frame (JStr ''B'')]) 0 =
        Some c2 \<and>
      outbox c2 = [Accept, fA, fB] \<and>
      frame_data fA = Some (JStr ''A'') \<and> frame_data fB = Some (JStr ''B''))"
proof -
  let ?A = "update_event ''transaction_update'' (JStr ''A'')"
  let ?B = "update_event ''transaction_update'' (JStr ''B'')"
  let ?S1 = "s1_after [transaction_frame (JStr ''A'')]"
  let ?S2 = "s1_after [transaction_frame (JStr ''A''), transaction_frame (JStr ''B'')]"
  have m: "0 \<in> set (groups s1_open ''transaction_updates'')" by (simp add: s1_open_def)
  have m1: "0 \<in> set (groups ?S1 ''transaction_updates'')"
    by (simp add: s1_after_def s1_open_def)
  have pA: "group_send ''transaction_updates'' ?A s1_open = Inr ?S1"
    using publish_s1_after [of "JStr ''A''" "[]"] by (simp add: s1_after_Nil)
  have pB: "group_send ''transaction_updates'' ?B ?S1 = Inr ?S2"
    using publish_s1_after [of "JStr ''B''" "[transaction_frame (JStr ''A'')]"] by simp
  have idle: "step\<^sup>*\<^sup>* ?S1 ?S1" by simp
  from fifo_per_topic [OF reachable_s1_open m pA idle m1 pB]
  obtain c c1 c1' c2 fA fB mid where t:
    "consumers s1_open 0 = Some c" "consumers ?S1 0 = Some c1" "consumers ?S1 0 = Some c1'"
    "consumers ?S2 0 = Some c2" "outbox c1 = outbox c @ [fA]" "frame_data fA = ?A ''data''"
    "outbox c1' = outbox c1 @ mid" "outbox c2 = outbox c1' @ [fB]"
    "frame_data fB = ?B ''data''"
    by blast
  from t(1) have "outbox c = [Accept]" by (auto simp: s1_open_def s1_def)
  moreover from t(2,3,7) have "mid = []" by simp
  ultimately have "outbox c2 = [Accept, fA, fB]" using t(2,3,5,8) by simp
  moreover from t(6,9) have "frame_data fA = Some (JStr ''A'')" "frame_data fB = Some (JStr ''B'')"
    by (simp_all add: update_event_def)
  ultimately have "\<exists>c2 fA fB. consumers ?S2 0 = Some c2 \<and> outbox c2 = [Accept, fA, fB] \<and>
      frame_data fA = Some (JStr ''A'') \<and> frame_data fB = Some (JStr ''B'')"
    using t(4) by blast
  with reachable_s1_open m pA pB show ?thesis by blast
qed

text \<open>
  C9. The transactions handler always sends the type \<^verbatim>\<open>transaction\<close> and the
  ml-training handler always sends \<^verbatim>\<open>training_progress\<close>: changing, adding or removing
  the type tag of the inbound event changes nothing in what either does, and whenever
  either sends a frame its type field is that constant. The dashboard handler alone
  copies the inbound event's type tag into the frame it sends.
\<close>

theorem outbound_type_field:
  "(\<forall>t. TransactionConsumer_transaction_update c (event(''type'' := t)) =
         TransactionConsumer_transaction_update c event) \<and>
   (\<forall>c'. TransactionConsumer_transaction_update c event = Inr c' \<longrightarrow>
         outbox c' = outbox c @ [last (outbox c')] \<and>
         frame_type (last (outbox c')) = Some (JStr ''transaction'')) \<and>
   (\<forall>t. MLTrainingConsumer_training_update c (event(''type'' := t)) =
         MLTrainingConsumer_training_update c event) \<and>
   (\<forall>c'. MLTrainingConsumer_training_update c event = Inr c' \<longrightarrow>
         outbox c' = outbox c @ [last (outbox c')] \<and>
         frame_type (last (outbox c')) = Some (JStr ''training_progress'')) \<and>
   (\<forall>c'. DashboardConsumer_dashboard_update c event = Inr c' \<longrightarrow>
         outbox c' = outbox c @ [last (outbox c')] \<and>
         frame_type (last (outbox c')) = event ''type'')"
proof -
  have tx_indep: "\<forall>t. TransactionConsumer_transaction_update c (event(''type'' := t)) =
      TransactionConsumer_transaction_update c event"
    by (simp add: TransactionConsumer_transaction_update_def getitem_def)
  have ml_indep: "\<forall>t. MLTrainingConsumer_training_update c (event(''type'' := t)) =
      MLTrainingConsumer_training_update c event"
    by (simp add: MLTrainingConsumer_training_update_def getitem_def)
  have tx_const: "\<forall>c'. TransactionConsumer_transaction_update c event = Inr c' \<longrightarrow>
      outbox c' = outbox c @ [last (outbox c')] \<and>
      frame_type (last (outbox c')) = Some (JStr ''transaction'')"
    by (auto simp: TransactionConsumer_transaction_update_def getitem_def send_def
        split: option.splits)
  have ml_const: "\<forall>c'. MLTrainingConsumer_training_update c event = Inr c' \<longrightarrow>
      outbox c' = outbox c @ [last (outbox c')] \<and>
      frame_type (last (outbox c')) = Some (JStr ''training_progress'')"
    by (auto simp: MLTrainingConsumer_training_update_def getitem_def send_def
        split: option.splits)
  have db_copy: "\<forall>c'. DashboardConsumer_dashboard_update c event = Inr c' \<longrightarrow>
      outbox c' = outbox c @ [last (outbox c')] \<and>
      frame_type (last (outbox c')) = event ''type''"
    by (auto simp: DashboardConsumer_dashboard_update_def getitem_def send_def
        split: option.splits)
  from tx_indep tx_const ml_indep ml_const db_copy show ?thesis by blast
qed

text \<open>C9 at one event, handed to each of the three handlers.\<close>

theorem outbound_type_field_witness:
  "TransactionConsumer_transaction_update s1 sig_abc =
     Inr (s1\<lparr>outbox := [Accept, transaction_frame (JObj [(''sig'', JStr ''abc'')])]\<rparr>) \<and>
   frame_type (last (outbox
     (s1\<lparr>outbox := [Accept, transaction_frame (JObj [(''sig'', JStr ''abc'')])]\<rparr>))) =
     Some (JStr ''transaction'') \<and>
   (\<exists>c'. MLTrainingConsumer_training_update s1 sig_abc = Inr c' \<and>
      frame_type (last (outbox c')) = Some (JStr ''training_progress'')) \<and>
   (\<exists>c'. DashboardConsumer_dashboard_update s1 sig_abc = Inr c' \<and>
      frame_type (last (outbox c')) = Some (JStr ''transaction_update''))"
proof -
  note t = outbound_type_field [of s1 sig_abc]
  have tx: "TransactionConsumer_transaction_update s1 sig_abc =
     Inr (s1\<lparr>outbox := [Accept, transaction_frame (JObj [(''sig'', JStr ''abc'')])]\<rparr>)"
    by (simp add: TransactionConsumer_transaction_update_def getitem_def sig_abc_def update_event_def send_def
        s1_def transaction_frame_def)
  with t have 1: "frame_type (last (outbox
     (s1\<lparr>outbox := [Accept, transaction_frame (JObj [(''sig'', JStr ''abc'')])]\<rparr>))) =
     Some (JStr ''transaction'')" by blast
  obtain c' where ml: "MLTrainingConsumer_training_update s1 sig_abc = Inr c'"
    by (simp add: MLTrainingConsumer_training_update_def getitem_def sig_abc_def update_event_def)
  with t have 2: "frame_type (last (outbox c')) = Some (JStr ''training_progress'')" by blast
  obtain c'' where db: "DashboardConsumer_dashboard_update s1 sig_abc = Inr c''"
    by (simp add: DashboardConsumer_dashboard_update_def getitem_def sig_abc_def update_event_def)
  with t have "frame_type (last (outbox c'')) = sig_abc ''type''" by blast
  then have 3: "frame_type (last (outbox c'')) = Some (JStr ''transaction_update'')"
    by (simp add: sig_abc_def update_event_def)
  from tx 1 ml 2 db 3 show ?thesis by blast
qed




end
